theory Spec2Isabelle
  imports Main
begin

section \<open>Cancelable tasks (src/async/Task.ts)\<close>

text \<open>
  A Task is a Promise with a fourth state, \<open>Canceled\<close>, a cancel closure
  (\<open>canceler\<close>), the list of the Tasks chained on it (\<open>children\<close>) and, for a Task
  made by \<open>finally\<close>, the finally callback (\<open>_finally\<close>).

  Tasks are objects that refer to each other (a parent holds its children, a child's
  canceler holds its parent), so the embedding keeps them in a store: a list of task
  records, a Task being named by its index. Closures become data: a canceler is the
  record of which of the two closures of the source it is and of the objects it captured.
  Calls of user code (the cancel hook given to the constructor, finally callbacks, the
  handlers given to \<open>then\<close>) are written to a log, in the order they happen. User code is
  described by what it returns or throws; it is taken not to call back into the Task
  operations.
\<close>

subsection \<open>Data\<close>

text \<open>
  \<open>State\<close> is imported from Promise.ts, which is not part of the sources at hand; its
  three members are taken from the specification (Pending, Fulfilled, Rejected).
  Task.ts adds \<open>Canceled = <State> 4\<close>.
\<close>

datatype State = Fulfilled | Pending | Rejected | Canceled

datatype val = Undefined | Val nat

datatype error = TypeError | Error nat

text \<open>
  A thenable that reaches the cancelation code is either one that a finally callback
  returned (\<open>External\<close>), or the result of \<open>finallyTask.then(runFinally, runFinally)\<close>
  built by \<open>_cancel\<close> for a Task: \<open>ThenRunFinally th t\<close> settles only after \<open>th\<close> has settled
  and the finally callback of Task \<open>t\<close> has then been run.
\<close>

datatype thenable = External nat | ThenRunFinally thenable nat

text \<open>The type \<open>void | Thenable<any>\<close> of \<open>finallyTask\<close> and of a finally callback's result.\<close>

datatype finallyTask = Void | Thenable (the_thenable: thenable)

text \<open>\<open>isThenable\<close> is imported from Promise.ts; on the type above it is the test of the tag.\<close>

fun isThenable :: "finallyTask \<Rightarrow> bool" where
  "isThenable Void = False"
| "isThenable (Thenable th) = True"

text \<open>A finally callback, by what a call of it does.\<close>

datatype callback = Throwing error | Returning finallyTask

text \<open>The cancel hook handed to the constructor, by what a call of it does.\<close>

datatype hook = HookReturns | HookThrows error

text \<open>
  The two closures assigned to \<open>canceler\<close>:
  \<^item> \<open>RootCanceler hook this\<close> is the constructor's
    \<^verbatim>\<open>() => { canceler(); this._cancel(); }\<close>
  \<^item> \<open>ThenCanceler this task\<close> is the one \<open>then\<close> assigns to the new Task,
    \<^verbatim>\<open>() => { if (this._state === State.Pending) this.cancel(); else task._cancel(); }\<close>
  (\<open>Task.copy\<close> first gives the new Task another canceler, which \<open>then\<close> overwrites
  before the Task is returned.)
\<close>

datatype canceler = RootCanceler hook nat | ThenCanceler nat nat

text \<open>
  A handler given to \<open>then\<close>. \<open>Handler r\<close> is a handler of the caller, by what a call of
  it returns (\<open>Inr\<close>) or throws (\<open>Inl\<close>). \<open>FinallyHandler cb\<close> is the handler that the base
  \<open>finally\<close> builds around the callback \<open>cb\<close>.
\<close>

datatype handler = Handler "error + val" | FinallyHandler callback

record task =
  state :: State
  canceler :: canceler
  children :: "nat list"
  task_finally :: "callback option"
  onFulfilled :: "handler option"
  onRejected :: "handler option"
  settled :: "(error + val) option"

text \<open>
  \<open>onFulfilled\<close> and \<open>onRejected\<close> are the handlers captured by the two wrappers that
  \<open>then\<close> passes to the base \<open>then\<close> (\<open>None\<close> is an omitted handler); \<open>settled\<close> is
  the value or error of the base future.
\<close>

datatype event =
    CancelerCalled nat
  | HookCalled nat
  | FinallyCalled nat State
  | FinallyAttached nat thenable
  | HandlerCalled nat
  | BaseResolve nat val
  | BaseReject nat error

text \<open>
  \<open>CancelerCalled t\<close>: \<open>cancel\<close> called the closure \<open>canceler\<close> of \<open>t\<close>.
  \<open>HookCalled t\<close>: the hook given to the constructor of \<open>t\<close> was called.
  \<open>FinallyCalled t s\<close>: \<open>_finally\<close> of \<open>t\<close> was called by \<open>runFinally\<close> while the state of
  \<open>t\<close> was \<open>s\<close>. \<open>FinallyAttached t th\<close>: \<open>runFinally\<close> of \<open>t\<close> was passed to \<open>th.then\<close>, on both
  paths. \<open>HandlerCalled t\<close>: a handler given to the \<open>then\<close> that made \<open>t\<close> was called.
  \<open>BaseResolve\<close>, \<open>BaseReject\<close>: the base future's resolve or reject was called.
\<close>

record world =
  tasks :: "task list"
  log :: "event list"

datatype completion = Returned | Threw error

definition set_state :: "nat \<Rightarrow> State \<Rightarrow> world \<Rightarrow> world" where
  "set_state t s w = w\<lparr>tasks := (tasks w)[t := (tasks w ! t)\<lparr>state := s\<rparr>]\<rparr>"

definition add_log :: "event \<Rightarrow> world \<Rightarrow> world" where
  "add_log e w = w\<lparr>log := log w @ [e]\<rparr>"

subsection \<open>The propagation routine \<open>_cancel\<close>\<close>

text \<open>\<open>this._finally()\<close>, and \<open>runFinally\<close>, which catches what it throws and returns undefined.\<close>

fun call_finally :: "callback \<Rightarrow> error + finallyTask" where
  "call_finally (Throwing e) = Inl e"
| "call_finally (Returning r) = Inr r"

definition runFinally :: "callback \<Rightarrow> finallyTask" where
  "runFinally cb = (case call_finally cb of Inl e \<Rightarrow> Void | Inr r \<Rightarrow> r)"

text \<open>
  The block \<open>if (this._finally) { ... }\<close> of \<open>_cancel\<close>: it runs or attaches the finally
  callback and assigns \<open>finallyTask\<close>. The result is the new \<open>finallyTask\<close> and the store.
\<close>

definition finally_block :: "finallyTask \<Rightarrow> nat \<Rightarrow> world \<Rightarrow> finallyTask \<times> world" where
  "finally_block finallyTask this w =
     (case task_finally (tasks w ! this) of
        None \<Rightarrow> (finallyTask, w)
      | Some cb \<Rightarrow>
          if isThenable finallyTask
          then (Thenable (ThenRunFinally (the_thenable finallyTask) this),
                add_log (FinallyAttached this (the_thenable finallyTask)) w)
          else (runFinally cb, add_log (FinallyCalled this (state (tasks w ! this))) w))"

text \<open>
  \<open>p_cancel\<close> is the private method \<open>_cancel\<close>; \<open>forEach_p_cancel\<close> is its last line,
  \<open>this.children.forEach(child => child._cancel(finallyTask))\<close>. The source recurses
  through the children with no bound; the first argument is fuel for that recursion, and
  \<open>None\<close> means the fuel ran out.
\<close>

fun p_cancel :: "nat \<Rightarrow> finallyTask \<Rightarrow> nat \<Rightarrow> world \<Rightarrow> world option"
  and forEach_p_cancel :: "nat \<Rightarrow> finallyTask \<Rightarrow> nat list \<Rightarrow> world \<Rightarrow> world option" where
  "p_cancel 0 finallyTask this w = None"
| "p_cancel (Suc n) finallyTask this w =
     (let w1 = set_state this Canceled w;
          (finallyTask', w2) = finally_block finallyTask this w1
      in forEach_p_cancel n finallyTask' (children (tasks w2 ! this)) w2)"
| "forEach_p_cancel n finallyTask [] w = Some w"
| "forEach_p_cancel n finallyTask (child # rest) w =
     (case p_cancel n finallyTask child w of
        None \<Rightarrow> None
      | Some w' \<Rightarrow> forEach_p_cancel n finallyTask rest w')"

subsection \<open>\<open>cancel\<close> and the cancelers\<close>

fun cancel :: "nat \<Rightarrow> nat \<Rightarrow> world \<Rightarrow> (world \<times> completion) option"
  and run_canceler :: "nat \<Rightarrow> canceler \<Rightarrow> world \<Rightarrow> (world \<times> completion) option" where
  "cancel 0 this w = None"
| "cancel (Suc n) this w =
     (if state (tasks w ! this) = Pending
      then run_canceler n (canceler (tasks w ! this)) (add_log (CancelerCalled this) w)
      else Some (w, Returned))"
| "run_canceler n (RootCanceler h this) w =
     (let w1 = add_log (HookCalled this) w in
      case h of
        HookThrows e \<Rightarrow> Some (w1, Threw e)
      | HookReturns \<Rightarrow> map_option (\<lambda>w2. (w2, Returned)) (p_cancel n Void this w1))"
| "run_canceler n (ThenCanceler this task) w =
     (if state (tasks w ! this) = Pending then cancel n this w
      else map_option (\<lambda>w2. (w2, Returned)) (p_cancel n Void task w))"

text \<open>
  The public \<open>cancel()\<close>. In a store of \<open>k\<close> Tasks built by the operations below, a chain
  of parents is shorter than \<open>k\<close> and so is a chain of children, so \<open>2 * k + 2\<close> units of
  fuel are enough (\<open>task_cancel_returns\<close> below).
\<close>

definition fuel :: "world \<Rightarrow> nat" where
  "fuel w = 2 * length (tasks w) + 2"

definition task_cancel :: "nat \<Rightarrow> world \<Rightarrow> (world \<times> completion) option" where
  "task_cancel this w = cancel (fuel w) this w"

subsection \<open>The constructor\<close>

text \<open>
  Modelled from the spec: the base future (Promise.ts) is not part of the sources at
  hand. It has the three states Pending, Fulfilled and Rejected, starts Pending, and a
  call of its resolve or reject settles it if it is Pending and is ignored otherwise.
\<close>

definition base_resolve :: "nat \<Rightarrow> val \<Rightarrow> world \<Rightarrow> world" where
  "base_resolve t v w =
     (let w1 = add_log (BaseResolve t v) w in
      if state (tasks w1 ! t) = Pending
      then w1\<lparr>tasks := (tasks w1)[t := (tasks w1 ! t)\<lparr>state := Fulfilled, settled := Some (Inr v)\<rparr>]\<rparr>
      else w1)"

definition base_reject :: "nat \<Rightarrow> error \<Rightarrow> world \<Rightarrow> world" where
  "base_reject t e w =
     (let w1 = add_log (BaseReject t e) w in
      if state (tasks w1 ! t) = Pending
      then w1\<lparr>tasks := (tasks w1)[t := (tasks w1 ! t)\<lparr>state := Rejected, settled := Some (Inl e)\<rparr>]\<rparr>
      else w1)"

text \<open>
  The two functions that the constructor hands to the executor in place of the base
  future's resolve and reject.
\<close>

definition executor_resolve :: "nat \<Rightarrow> val \<Rightarrow> world \<Rightarrow> world" where
  "executor_resolve this v w =
     (if state (tasks w ! this) \<noteq> Canceled then base_resolve this v w else w)"

definition executor_reject :: "nat \<Rightarrow> error \<Rightarrow> world \<Rightarrow> world" where
  "executor_reject this e w =
     (if state (tasks w ! this) \<noteq> Canceled then base_reject this e w else w)"

text \<open>\<open>new Task(executor, canceler)\<close>: the new Task is the last of the store.\<close>

definition new_task :: "hook \<Rightarrow> world \<Rightarrow> world \<times> nat" where
  "new_task h w =
     (let this = length (tasks w) in
      (w\<lparr>tasks := tasks w @
          [\<lparr>state = Pending, canceler = RootCanceler h this, children = [],
            task_finally = None, onFulfilled = None, onRejected = None, settled = None\<rparr>]\<rparr>,
       this))"

subsection \<open>\<open>then\<close> and \<open>finally\<close>\<close>

text \<open>
  A call of a handler. The base \<open>finally\<close>'s handler is modelled from the spec: it calls
  the callback and passes the incoming value or error on, unless the callback throws.
\<close>

fun call_handler :: "handler \<Rightarrow> error + val \<Rightarrow> nat \<Rightarrow> world \<Rightarrow> world \<times> (error + val)" where
  "call_handler (Handler r) incoming task w = (add_log (HandlerCalled task) w, r)"
| "call_handler (FinallyHandler cb) incoming task w =
     (add_log (FinallyCalled task (state (tasks w ! task))) (add_log (HandlerCalled task) w),
      case call_finally cb of Inl e \<Rightarrow> Inl e | Inr r \<Rightarrow> incoming)"

text \<open>
  The two wrappers that \<open>then\<close> passes to the base \<open>then\<close>. Calling an omitted handler
  is calling \<open>undefined\<close>, which throws a TypeError; a wrapper that does not call the
  handler returns \<open>undefined\<close>.
\<close>

definition then_onFulfilled :: "nat \<Rightarrow> val \<Rightarrow> world \<Rightarrow> world \<times> (error + val)" where
  "then_onFulfilled task v w =
     (if state (tasks w ! task) \<noteq> Canceled
      then (case onFulfilled (tasks w ! task) of
              None \<Rightarrow> (w, Inl TypeError)
            | Some h \<Rightarrow> call_handler h (Inr v) task w)
      else (w, Inr Undefined))"

definition then_onRejected :: "nat \<Rightarrow> error \<Rightarrow> world \<Rightarrow> world \<times> (error + val)" where
  "then_onRejected task e w =
     (if state (tasks w ! task) \<noteq> Canceled
      then (case onRejected (tasks w ! task) of
              None \<Rightarrow> (w, Inl TypeError)
            | Some h \<Rightarrow> call_handler h (Inl e) task w)
      else (w, Inr Undefined))"

text \<open>
  \<open>this.then(onFulfilled, onRejected)\<close>. The new Task is Pending (modelled from the spec:
  the base \<open>then\<close> returns a new future, whose handler runs later), gets the canceler of
  \<open>then\<close>, and is pushed on \<open>this.children\<close>.
\<close>

definition task_then :: "nat \<Rightarrow> handler option \<Rightarrow> handler option \<Rightarrow> world \<Rightarrow> world \<times> nat" where
  "task_then this onF onR w =
     (let task = length (tasks w);
          ts = tasks w @
            [\<lparr>state = Pending, canceler = ThenCanceler this task, children = [],
              task_finally = None, onFulfilled = onF, onRejected = onR, settled = None\<rparr>]
      in (w\<lparr>tasks := ts[this := (ts ! this)\<lparr>children := children (ts ! this) @ [task]\<rparr>]\<rparr>,
          task))"

text \<open>
  \<open>this.finally(callback)\<close>. Modelled from the spec: the base \<open>finally\<close> chains with
  \<open>this.then\<close>, giving it its own handler on both paths. The source then stores the
  callback in \<open>_finally\<close> of the new Task.
\<close>

definition finally_task :: "nat \<Rightarrow> callback \<Rightarrow> world \<Rightarrow> world \<times> nat" where
  "finally_task this cb w =
     (let (w1, task) = task_then this (Some (FinallyHandler cb)) (Some (FinallyHandler cb)) w
      in (w1\<lparr>tasks := (tasks w1)[task := (tasks w1 ! task)\<lparr>task_finally := Some cb\<rparr>]\<rparr>, task))"

subsection \<open>Settlement of a chained Task\<close>

text \<open>
  Modelled from the spec: once the Task \<open>this\<close> on which \<open>task\<close> was chained has settled,
  the base future calls the wrapper of \<open>task\<close> for the outcome of \<open>this\<close>, once, and
  settles \<open>task\<close> with what the wrapper returns or throws.
\<close>

definition base_settle :: "nat \<Rightarrow> error + val \<Rightarrow> world \<Rightarrow> world" where
  "base_settle t r w = (case r of Inl e \<Rightarrow> base_reject t e w | Inr v \<Rightarrow> base_resolve t v w)"

definition deliver :: "nat \<Rightarrow> world \<Rightarrow> world" where
  "deliver task w =
     (case canceler (tasks w ! task) of
        RootCanceler h t \<Rightarrow> w
      | ThenCanceler this t \<Rightarrow>
          if state (tasks w ! task) = Fulfilled \<or> state (tasks w ! task) = Rejected then w
          else
            (case settled (tasks w ! this) of
               None \<Rightarrow> w
             | Some (Inr v) \<Rightarrow> (let (w1, r) = then_onFulfilled task v w in base_settle task r w1)
             | Some (Inl e) \<Rightarrow> (let (w1, r) = then_onRejected task e w in base_settle task r w1)))"

subsection \<open>Sequences of operations\<close>

datatype op =
    New hook
  | Then nat "handler option" "handler option"
  | Finally nat callback
  | Cancel nat
  | Resolve nat val
  | Reject nat error
  | Deliver nat

definition is_root :: "world \<Rightarrow> nat \<Rightarrow> bool" where
  "is_root w t = (case canceler (tasks w ! t) of RootCanceler h x \<Rightarrow> True | ThenCanceler p x \<Rightarrow> False)"

text \<open>
  One operation on the store. An operation names a Task of the store; \<open>Resolve\<close> and
  \<open>Reject\<close> are the executor's calls, which only a Task made by the constructor has.
  An operation that names no such Task does nothing.
\<close>

fun step :: "world \<Rightarrow> op \<Rightarrow> world option" where
  "step w (New h) = Some (fst (new_task h w))"
| "step w (Then t onF onR) =
     (if t < length (tasks w) then Some (fst (task_then t onF onR w)) else Some w)"
| "step w (Finally t cb) =
     (if t < length (tasks w) then Some (fst (finally_task t cb w)) else Some w)"
| "step w (Cancel t) =
     (if t < length (tasks w) then map_option fst (task_cancel t w) else Some w)"
| "step w (Resolve t v) =
     (if t < length (tasks w) \<and> is_root w t then Some (executor_resolve t v w) else Some w)"
| "step w (Reject t e) =
     (if t < length (tasks w) \<and> is_root w t then Some (executor_reject t e w) else Some w)"
| "step w (Deliver t) =
     (if t < length (tasks w) then Some (deliver t w) else Some w)"

fun run :: "world \<Rightarrow> op list \<Rightarrow> world option" where
  "run w [] = Some w"
| "run w (x # xs) = (case step w x of None \<Rightarrow> None | Some w' \<Rightarrow> run w' xs)"

definition init :: world where
  "init = \<lparr>tasks = [], log = []\<rparr>"

subsection \<open>Notions used to state the properties\<close>

text \<open>Adding several events to the log.\<close>

definition add_logs :: "event list \<Rightarrow> world \<Rightarrow> world" where
  "add_logs es w = w\<lparr>log := log w @ es\<rparr>"

text \<open>A task without its state: \<open>_cancel\<close> changes nothing else of a Task.\<close>

definition skel :: "task \<Rightarrow> task" where
  "skel t = t\<lparr>state := Pending\<rparr>"

text \<open>\<open>descendant w a d\<close>: \<open>d\<close> is \<open>a\<close> or is reached from \<open>a\<close> through \<open>children\<close>.\<close>

inductive descendant :: "world \<Rightarrow> nat \<Rightarrow> nat \<Rightarrow> bool" for w a where
  self: "descendant w a a"
| child: "descendant w a p \<Longrightarrow> p < length (tasks w) \<Longrightarrow>
    c \<in> set (children (tasks w ! p)) \<Longrightarrow> descendant w a c"

text \<open>
  What the constructor and \<open>then\<close> establish and no operation breaks: the children of
  a Task are distinct Tasks of the store made after it, each with the canceler that
  \<open>then\<close> gave it, which captured that parent and the child itself; the canceler of the
  constructor captured the Task it belongs to.
\<close>

definition well_formed :: "world \<Rightarrow> bool" where
  "well_formed w =
     (\<forall>t < length (tasks w).
        distinct (children (tasks w ! t)) \<and>
        (\<forall>c \<in> set (children (tasks w ! t)).
           t < c \<and> c < length (tasks w) \<and> canceler (tasks w ! c) = ThenCanceler t c) \<and>
        (case canceler (tasks w ! t) of
           RootCanceler h x \<Rightarrow> x = t
         | ThenCanceler p x \<Rightarrow> x = t \<and> p < t \<and> t \<in> set (children (tasks w ! p))))"

text \<open>
  The Tasks whose \<open>cancel\<close> runs when \<open>cancel\<close> is called on the Pending Task \<open>t\<close>:
  \<open>t\<close>, then its parent if that is Pending, and so on upwards. The last of them is the
  \<open>origin\<close>, where the cancelation starts to go down.
\<close>

function escalation :: "world \<Rightarrow> nat \<Rightarrow> nat list" where
  "escalation w t =
     (case canceler (tasks w ! t) of
        RootCanceler h x \<Rightarrow> [t]
      | ThenCanceler p x \<Rightarrow>
          if p < t \<and> state (tasks w ! p) = Pending then t # escalation w p else [t])"
  by pat_completeness auto
termination
  by (relation "measure (\<lambda>(w, t). t)") auto

declare escalation.simps [simp del]

definition origin :: "world \<Rightarrow> nat \<Rightarrow> nat" where
  "origin w t = last (escalation w t)"

text \<open>What the canceler of the origin \<open>a\<close> does, once the escalation has reached it.\<close>

definition finish :: "nat \<Rightarrow> world \<Rightarrow> (world \<times> completion) option" where
  "finish a w =
     (case canceler (tasks w ! a) of
        RootCanceler h x \<Rightarrow>
          (case h of
             HookThrows e \<Rightarrow> Some (add_log (HookCalled a) w, Threw e)
           | HookReturns \<Rightarrow>
               map_option (\<lambda>w2. (w2, Returned))
                 (p_cancel (length (tasks w)) Void a (add_log (HookCalled a) w)))
      | ThenCanceler p x \<Rightarrow>
          map_option (\<lambda>w2. (w2, Returned)) (p_cancel (length (tasks w)) Void a w))"

text \<open>
  \<open>in_subtree w a d\<close> computes \<open>descendant w a d\<close> in a well-formed store, going up from
  \<open>d\<close> through the parents that the cancelers of \<open>then\<close> captured
  (\<open>descendant_iff\<close> below).
\<close>

function in_subtree :: "world \<Rightarrow> nat \<Rightarrow> nat \<Rightarrow> bool" where
  "in_subtree w a d =
     (d = a \<or>
      (case canceler (tasks w ! d) of
         RootCanceler h x \<Rightarrow> False
       | ThenCanceler p x \<Rightarrow> if p < d then in_subtree w a p else False))"
  by pat_completeness auto
termination
  by (relation "measure (\<lambda>(w, a, d). d)") auto

declare in_subtree.simps [simp del]

text \<open>The events that \<open>_cancel\<close> writes.\<close>

fun is_finally_event :: "event \<Rightarrow> bool" where
  "is_finally_event (FinallyCalled t s) = True"
| "is_finally_event (FinallyAttached t th) = True"
| "is_finally_event e = False"

text \<open>
  What holds of every store made by the operations from the empty one
  (\<open>run_invariant\<close> below):
  \<^item> \<open>pending_above\<close>: a Task chained on a Pending Task is Pending;
  \<^item> \<open>settled_inv\<close>: a Task with a value or an error is not Pending;
  \<^item> \<open>hook_inv\<close>: a hook that returns has been called at most once, and the Task of a
    hook that was called and returned is not Pending.
\<close>

definition pending_above :: "world \<Rightarrow> bool" where
  "pending_above w =
     (\<forall>c < length (tasks w). \<forall>p x.
        canceler (tasks w ! c) = ThenCanceler p x \<longrightarrow>
        state (tasks w ! p) = Pending \<longrightarrow> state (tasks w ! c) = Pending)"

definition settled_inv :: "world \<Rightarrow> bool" where
  "settled_inv w =
     (\<forall>t < length (tasks w). settled (tasks w ! t) \<noteq> None \<longrightarrow> state (tasks w ! t) \<noteq> Pending)"

definition hook_inv :: "world \<Rightarrow> bool" where
  "hook_inv w =
     ((\<forall>t. HookCalled t \<in> set (log w) \<longrightarrow> t < length (tasks w)) \<and>
      (\<forall>t < length (tasks w). \<forall>x.
         canceler (tasks w ! t) = RootCanceler HookReturns x \<longrightarrow>
         count_list (log w) (HookCalled t) \<le> 1 \<and>
         (HookCalled t \<in> set (log w) \<longrightarrow> state (tasks w ! t) \<noteq> Pending)))"

definition invariant :: "world \<Rightarrow> bool" where
  "invariant w = (well_formed w \<and> pending_above w \<and> settled_inv w \<and> hook_inv w)"

text \<open>The events of a call of a handler of \<open>t\<close>, and of the base future of \<open>t\<close>.\<close>

fun handler_event :: "nat \<Rightarrow> event \<Rightarrow> bool" where
  "handler_event t (HandlerCalled x) = (x = t)"
| "handler_event t (FinallyCalled x s) = (x = t)"
| "handler_event t e = False"

fun base_event :: "nat \<Rightarrow> event \<Rightarrow> bool" where
  "base_event t (BaseResolve x v) = (x = t)"
| "base_event t (BaseReject x e) = (x = t)"
| "base_event t e = False"

text \<open>
  \<open>keeps w w'\<close>: every Task of \<open>w\<close> is in \<open>w'\<close> with its canceler, and with its state if
  that was not Pending.
\<close>

definition keeps :: "world \<Rightarrow> world \<Rightarrow> bool" where
  "keeps w w' =
     (length (tasks w) \<le> length (tasks w') \<and>
      (\<forall>t < length (tasks w).
         canceler (tasks w' ! t) = canceler (tasks w ! t) \<and>
         (state (tasks w ! t) \<noteq> Pending \<longrightarrow> state (tasks w' ! t) = state (tasks w ! t))))"

text \<open>
  The Tasks that \<open>_cancel\<close> started on \<open>t\<close> visits, in the order in which it visits them
  (with the fuel of \<open>p_cancel\<close>).
\<close>

fun visit :: "nat \<Rightarrow> world \<Rightarrow> nat \<Rightarrow> nat list"
  and visit_all :: "nat \<Rightarrow> world \<Rightarrow> nat list \<Rightarrow> nat list" where
  "visit 0 w t = []"
| "visit (Suc n) w t = t # visit_all n w (children (tasks w ! t))"
| "visit_all n w [] = []"
| "visit_all n w (c # cs) = visit n w c @ visit_all n w cs"

text \<open>
  \<open>handed_down w t ft\<close>: the \<open>finallyTask\<close> that \<open>_cancel\<close> on \<open>t\<close>, called with \<open>ft\<close>,
  passes to the children of \<open>t\<close>.
\<close>

definition handed_down :: "world \<Rightarrow> nat \<Rightarrow> finallyTask \<Rightarrow> finallyTask" where
  "handed_down w t ft = fst (finally_block ft t w)"

text \<open>
  \<open>incoming w a ft d\<close>: the \<open>finallyTask\<close> with which \<open>_cancel\<close> is called on the
  descendant \<open>d\<close> of \<open>a\<close>, when it was called on \<open>a\<close> with \<open>ft\<close>: \<open>ft\<close> for \<open>a\<close> itself, and
  for another Task what its parent hands down. \<open>events_at\<close> are the events that the call
  on \<open>d\<close> then writes: none without a finally callback, else the call or the attachment
  of the callback.
\<close>

function incoming :: "world \<Rightarrow> nat \<Rightarrow> finallyTask \<Rightarrow> nat \<Rightarrow> finallyTask" where
  "incoming w a ft d =
     (if d = a then ft
      else case canceler (tasks w ! d) of
             RootCanceler h x \<Rightarrow> ft
           | ThenCanceler p x \<Rightarrow> if p < d then handed_down w p (incoming w a ft p) else ft)"
  by pat_completeness auto
termination
  by (relation "measure (\<lambda>(w, a, ft, d). d)") auto

declare incoming.simps [simp del]

definition events_at :: "world \<Rightarrow> nat \<Rightarrow> finallyTask \<Rightarrow> nat \<Rightarrow> event list" where
  "events_at w a ft d =
     (case task_finally (tasks w ! d) of
        None \<Rightarrow> []
      | Some cb \<Rightarrow>
          [if isThenable (incoming w a ft d)
           then FinallyAttached d (the_thenable (incoming w a ft d))
           else FinallyCalled d Canceled])"

text \<open>The events of the finally callback of \<open>d\<close>.\<close>

fun about_finally :: "nat \<Rightarrow> event \<Rightarrow> bool" where
  "about_finally d (FinallyCalled x s) = (x = d)"
| "about_finally d (FinallyAttached x th) = (x = d)"
| "about_finally d e = False"

text \<open>
  \<open>chained_on th th'\<close>: \<open>th'\<close> is \<open>th\<close> or was made from it by \<open>then(runFinally, runFinally)\<close>,
  in one or more steps; so \<open>th'\<close> settles only after \<open>th\<close> has settled.
\<close>

fun chained_on :: "thenable \<Rightarrow> thenable \<Rightarrow> bool" where
  "chained_on th (External k) = (th = External k)"
| "chained_on th (ThenRunFinally th' t) = (th = ThenRunFinally th' t \<or> chained_on th th')"

text \<open>
  \<open>quiet w\<close> is the store \<open>w\<close> with every finally callback that throws replaced by one
  that returns \<open>undefined\<close>.
\<close>

fun quiet_callback :: "callback \<Rightarrow> callback" where
  "quiet_callback (Throwing e) = Returning Void"
| "quiet_callback (Returning r) = Returning r"

definition quiet_task :: "task \<Rightarrow> task" where
  "quiet_task t = t\<lparr>task_finally := map_option quiet_callback (task_finally t)\<rparr>"

definition quiet :: "world \<Rightarrow> world" where
  "quiet w = w\<lparr>tasks := map quiet_task (tasks w)\<rparr>"

subsection \<open>Example stores\<close>

text \<open>A Task made by the constructor, fulfilled with 1 by its executor.\<close>

definition fulfilled_root :: world where
  "fulfilled_root =
     \<lparr>tasks = [\<lparr>state = Fulfilled, canceler = RootCanceler HookReturns 0, children = [],
         task_finally = None, onFulfilled = None, onRejected = None,
         settled = Some (Inr (Val 1))\<rparr>],
      log = [BaseResolve 0 (Val 1)]\<rparr>"

text \<open>
  A fulfilled Task 0 with two Tasks chained on it, 1 and 3, and a Task 2 chained on 1.
\<close>

definition fulfilled_parent :: world where
  "fulfilled_parent =
     \<lparr>tasks =
        [\<lparr>state = Fulfilled, canceler = RootCanceler HookReturns 0, children = [1, 3],
           task_finally = None, onFulfilled = None, onRejected = None,
           settled = Some (Inr (Val 1))\<rparr>,
         \<lparr>state = Pending, canceler = ThenCanceler 0 1, children = [2],
           task_finally = None, onFulfilled = Some (Handler (Inr (Val 2))), onRejected = None,
           settled = None\<rparr>,
         \<lparr>state = Pending, canceler = ThenCanceler 1 2, children = [],
           task_finally = None, onFulfilled = Some (Handler (Inr (Val 3))), onRejected = None,
           settled = None\<rparr>,
         \<lparr>state = Pending, canceler = ThenCanceler 0 3, children = [],
           task_finally = None, onFulfilled = Some (Handler (Inr (Val 4))), onRejected = None,
           settled = None\<rparr>],
      log = [BaseResolve 0 (Val 1)]\<rparr>"

text \<open>
  A Pending Task 0 made by the constructor, a Task 1 made by \<open>then\<close> on it, and a Task 2
  made by \<open>finally\<close> on Task 1.
\<close>

definition pending_chain :: world where
  "pending_chain =
     \<lparr>tasks =
        [\<lparr>state = Pending, canceler = RootCanceler HookReturns 0, children = [1],
           task_finally = None, onFulfilled = None, onRejected = None, settled = None\<rparr>,
         \<lparr>state = Pending, canceler = ThenCanceler 0 1, children = [2],
           task_finally = None, onFulfilled = Some (Handler (Inr (Val 2))), onRejected = None,
           settled = None\<rparr>,
         \<lparr>state = Pending, canceler = ThenCanceler 1 2, children = [],
           task_finally = Some (Returning Void),
           onFulfilled = Some (FinallyHandler (Returning Void)),
           onRejected = Some (FinallyHandler (Returning Void)), settled = None\<rparr>],
      log = []\<rparr>"

text \<open>
  A Task 0 fulfilled with 1, and a Task 1 chained on it by \<open>then\<close> and canceled before the
  base future called its handler.
\<close>

definition canceled_child :: world where
  "canceled_child =
     \<lparr>tasks =
        [\<lparr>state = Fulfilled, canceler = RootCanceler HookReturns 0, children = [1],
           task_finally = None, onFulfilled = None, onRejected = None,
           settled = Some (Inr (Val 1))\<rparr>,
         \<lparr>state = Canceled, canceler = ThenCanceler 0 1, children = [],
           task_finally = None, onFulfilled = Some (Handler (Inr (Val 2))), onRejected = None,
           settled = None\<rparr>],
      log = [BaseResolve 0 (Val 1), CancelerCalled 1]\<rparr>"

text \<open>
  A Pending Task 0 with two chains: Task 1 made by \<open>finally\<close> with a callback that returns
  a thenable, Task 2 made by \<open>then\<close> on 1, Task 3 made by \<open>finally\<close> on 2; and Task 4 made
  by \<open>finally\<close> on 0 with a callback that throws, Task 5 made by \<open>finally\<close> on 4.
\<close>

definition finally_tree :: world where
  "finally_tree =
     \<lparr>tasks =
        [\<lparr>state = Pending, canceler = RootCanceler HookReturns 0, children = [1, 4],
           task_finally = None, onFulfilled = None, onRejected = None, settled = None\<rparr>,
         \<lparr>state = Pending, canceler = ThenCanceler 0 1, children = [2],
           task_finally = Some (Returning (Thenable (External 7))),
           onFulfilled = Some (FinallyHandler (Returning (Thenable (External 7)))),
           onRejected = Some (FinallyHandler (Returning (Thenable (External 7)))),
           settled = None\<rparr>,
         \<lparr>state = Pending, canceler = ThenCanceler 1 2, children = [3],
           task_finally = None, onFulfilled = None, onRejected = None, settled = None\<rparr>,
         \<lparr>state = Pending, canceler = ThenCanceler 2 3, children = [],
           task_finally = Some (Returning Void),
           onFulfilled = Some (FinallyHandler (Returning Void)),
           onRejected = Some (FinallyHandler (Returning Void)), settled = None\<rparr>,
         \<lparr>state = Pending, canceler = ThenCanceler 0 4, children = [5],
           task_finally = Some (Throwing (Error 1)),
           onFulfilled = Some (FinallyHandler (Throwing (Error 1))),
           onRejected = Some (FinallyHandler (Throwing (Error 1))), settled = None\<rparr>,
         \<lparr>state = Pending, canceler = ThenCanceler 4 5, children = [],
           task_finally = Some (Returning Void),
           onFulfilled = Some (FinallyHandler (Returning Void)),
           onRejected = Some (FinallyHandler (Returning Void)), settled = None\<rparr>],
      log = []\<rparr>"

section \<open>Properties of the propagation and of \<open>cancel\<close>\<close>

lemma fuel_Suc: "fuel w = Suc (2 * length (tasks w) + 1)"
  by (simp add: fuel_def)

lemma skel_set_state: "map skel (tasks (set_state t s w)) = map skel (tasks w)"
proof (cases "t < length (tasks w)")
  case True
  then show ?thesis
    by (simp add: set_state_def map_update skel_def list_update_same_conv)
next
  case False
  then show ?thesis by (simp add: set_state_def list_update_beyond)
qed

lemma tasks_add_log [simp]: "tasks (add_log e w) = tasks w"
  by (simp add: add_log_def)

lemma log_add_log [simp]: "log (add_log e w) = log w @ [e]"
  by (simp add: add_log_def)

lemma log_set_state [simp]: "log (set_state t s w) = log w"
  by (simp add: set_state_def)

lemma length_set_state [simp]: "length (tasks (set_state t s w)) = length (tasks w)"
  by (simp add: set_state_def)

lemma tasks_finally_block [simp]: "tasks (snd (finally_block ft t w)) = tasks w"
  by (simp add: finally_block_def split: option.splits)

lemma p_cancel_skel:
  "p_cancel n ft t w = Some w' \<Longrightarrow> map skel (tasks w') = map skel (tasks w)"
  "forEach_p_cancel n ft cs w = Some w' \<Longrightarrow> map skel (tasks w') = map skel (tasks w)"
proof (induction n ft t w and n ft cs w arbitrary: w' and w' rule: p_cancel_forEach_p_cancel.induct)
  case (1 finallyTask this w)
  then show ?case by simp
next
  case (2 n finallyTask this w)
  obtain ft' w2 where fb: "finally_block finallyTask this (set_state this Canceled w) = (ft', w2)"
    by (cases "finally_block finallyTask this (set_state this Canceled w)")
  then have t2: "tasks w2 = tasks (set_state this Canceled w)"
    using tasks_finally_block[of finallyTask this "set_state this Canceled w"] by simp
  from "2.prems" fb have "forEach_p_cancel n ft' (children (tasks w2 ! this)) w2 = Some w'"
    by simp
  from "2.IH"[OF refl fb[symmetric] refl this] show ?case
    by (simp add: t2 skel_set_state)
next
  case (3 n finallyTask w)
  then show ?case by simp
next
  case (4 n finallyTask child rest w)
  then show ?case by (auto split: option.splits)
qed

lemma p_cancel_mono:
  "p_cancel n ft t w = Some w' \<Longrightarrow> n \<le> m \<Longrightarrow> p_cancel m ft t w = Some w'"
  "forEach_p_cancel n ft cs w = Some w' \<Longrightarrow> n \<le> m \<Longrightarrow> forEach_p_cancel m ft cs w = Some w'"
proof (induction n ft t w and n ft cs w arbitrary: w' m and w' m rule: p_cancel_forEach_p_cancel.induct)
  case (1 finallyTask this w)
  then show ?case by simp
next
  case (2 n finallyTask this w)
  from "2.prems" obtain k where m: "m = Suc k" and nk: "n \<le> k"
    by (cases m) auto
  obtain ft' w2 where fb: "finally_block finallyTask this (set_state this Canceled w) = (ft', w2)"
    by (cases "finally_block finallyTask this (set_state this Canceled w)")
  from "2.prems" fb have "forEach_p_cancel n ft' (children (tasks w2 ! this)) w2 = Some w'"
    by simp
  from "2.IH"[OF refl fb[symmetric] refl this nk] show ?case
    by (simp add: m fb)
next
  case (3 n finallyTask w)
  then show ?case by simp
next
  case (4 n finallyTask child rest w)
  from "4.prems" obtain w1 where a: "p_cancel n finallyTask child w = Some w1"
    and b: "forEach_p_cancel n finallyTask rest w1 = Some w'"
    by (auto split: option.splits)
  from "4.IH"(1)[OF a "4.prems"(2)] "4.IH"(2)[OF a b "4.prems"(2)] show ?case by simp
qed

lemma same_skelD:
  assumes "map skel (tasks w') = map skel (tasks w)"
  shows "length (tasks w') = length (tasks w)"
    and "i < length (tasks w) \<Longrightarrow> children (tasks w' ! i) = children (tasks w ! i)"
    and "i < length (tasks w) \<Longrightarrow> canceler (tasks w' ! i) = canceler (tasks w ! i)"
    and "i < length (tasks w) \<Longrightarrow> task_finally (tasks w' ! i) = task_finally (tasks w ! i)"
    and "i < length (tasks w) \<Longrightarrow> onFulfilled (tasks w' ! i) = onFulfilled (tasks w ! i)"
    and "i < length (tasks w) \<Longrightarrow> onRejected (tasks w' ! i) = onRejected (tasks w ! i)"
    and "i < length (tasks w) \<Longrightarrow> settled (tasks w' ! i) = settled (tasks w ! i)"
proof -
  show len: "length (tasks w') = length (tasks w)"
    using assms by (metis length_map)
  have sk: "skel (tasks w' ! i) = skel (tasks w ! i)" if "i < length (tasks w)" for i
    using assms that len by (metis nth_map)
  show "i < length (tasks w) \<Longrightarrow> children (tasks w' ! i) = children (tasks w ! i)"
    using sk[of i] by (simp add: skel_def) (metis task.select_convs(3) task.surjective task.update_convs(1))
  show "i < length (tasks w) \<Longrightarrow> canceler (tasks w' ! i) = canceler (tasks w ! i)"
    using sk[of i] by (simp add: skel_def) (metis task.select_convs(2) task.surjective task.update_convs(1))
  show "i < length (tasks w) \<Longrightarrow> task_finally (tasks w' ! i) = task_finally (tasks w ! i)"
    using sk[of i] by (simp add: skel_def) (metis task.select_convs(4) task.surjective task.update_convs(1))
  show "i < length (tasks w) \<Longrightarrow> onFulfilled (tasks w' ! i) = onFulfilled (tasks w ! i)"
    using sk[of i] by (simp add: skel_def) (metis task.select_convs(5) task.surjective task.update_convs(1))
  show "i < length (tasks w) \<Longrightarrow> onRejected (tasks w' ! i) = onRejected (tasks w ! i)"
    using sk[of i] by (simp add: skel_def) (metis task.select_convs(6) task.surjective task.update_convs(1))
  show "i < length (tasks w) \<Longrightarrow> settled (tasks w' ! i) = settled (tasks w ! i)"
    using sk[of i] by (simp add: skel_def) (metis task.select_convs(7) task.surjective task.update_convs(1))
qed

lemma well_formed_skel_imp:
  assumes sk: "map skel (tasks w') = map skel (tasks w)" and wf: "well_formed w"
  shows "well_formed w'"
  unfolding well_formed_def
proof (intro allI impI)
  fix t assume "t < length (tasks w')"
  then have t: "t < length (tasks w)" using same_skelD(1)[OF sk] by simp
  note len = same_skelD(1)[OF sk]
  note ch = same_skelD(2)[OF sk]
  note cn = same_skelD(3)[OF sk]
  from wf t have d: "distinct (children (tasks w ! t))"
    and c: "\<forall>c \<in> set (children (tasks w ! t)).
           t < c \<and> c < length (tasks w) \<and> canceler (tasks w ! c) = ThenCanceler t c"
    and k: "(case canceler (tasks w ! t) of
           RootCanceler h x \<Rightarrow> x = t
         | ThenCanceler p x \<Rightarrow> x = t \<and> p < t \<and> t \<in> set (children (tasks w ! p)))"
    unfolding well_formed_def by blast+
  have 1: "distinct (children (tasks w' ! t))" using d ch[OF t] by simp
  have 2: "\<forall>c \<in> set (children (tasks w' ! t)).
           t < c \<and> c < length (tasks w') \<and> canceler (tasks w' ! c) = ThenCanceler t c"
    using c ch[OF t] cn len by simp
  have 3: "(case canceler (tasks w' ! t) of
           RootCanceler h x \<Rightarrow> x = t
         | ThenCanceler p x \<Rightarrow> x = t \<and> p < t \<and> t \<in> set (children (tasks w' ! p)))"
  proof (cases "canceler (tasks w ! t)")
    case (RootCanceler h x)
    then show ?thesis using k cn[OF t] by simp
  next
    case (ThenCanceler p x)
    with k have "x = t" "p < t" "t \<in> set (children (tasks w ! p))" by simp_all
    moreover have "p < length (tasks w)" using \<open>p < t\<close> t by simp
    ultimately show ?thesis using ThenCanceler cn[OF t] ch[of p] by simp
  qed
  from 1 2 3 show "distinct (children (tasks w' ! t)) \<and>
        (\<forall>c \<in> set (children (tasks w' ! t)).
           t < c \<and> c < length (tasks w') \<and> canceler (tasks w' ! c) = ThenCanceler t c) \<and>
        (case canceler (tasks w' ! t) of
           RootCanceler h x \<Rightarrow> x = t
         | ThenCanceler p x \<Rightarrow> x = t \<and> p < t \<and> t \<in> set (children (tasks w' ! p)))"
    by blast
qed

lemma well_formed_skel:
  assumes "map skel (tasks w') = map skel (tasks w)"
  shows "well_formed w' = well_formed w"
  using well_formed_skel_imp[OF assms] well_formed_skel_imp[OF assms[symmetric]] by blast

lemma descendant_skel_imp:
  assumes "map skel (tasks w') = map skel (tasks w)" and "descendant w a d"
  shows "descendant w' a d"
  using assms(2)
proof (induction rule: descendant.induct)
  case self
  show ?case by (rule descendant.self)
next
  case (child p c)
  then show ?case
    using same_skelD(1)[OF assms(1)] same_skelD(2)[OF assms(1), of p]
    by (auto intro: descendant.child)
qed

lemma descendant_skel:
  assumes "map skel (tasks w') = map skel (tasks w)"
  shows "descendant w' a d = descendant w a d"
  using descendant_skel_imp[OF assms] descendant_skel_imp[OF assms[symmetric]] by blast

lemma descendant_trans:
  "descendant w b d \<Longrightarrow> descendant w a b \<Longrightarrow> descendant w a d"
  by (induction rule: descendant.induct) (auto intro: descendant.child)

lemma descendant_unfold:
  "descendant w a d \<longleftrightarrow>
     d = a \<or> (a < length (tasks w) \<and> (\<exists>c \<in> set (children (tasks w ! a)). descendant w c d))"
proof
  assume "descendant w a d"
  then show "d = a \<or> (a < length (tasks w) \<and> (\<exists>c \<in> set (children (tasks w ! a)). descendant w c d))"
  proof (induction rule: descendant.induct)
    case self
    then show ?case by simp
  next
    case (child p c)
    then show ?case
      by (auto intro: descendant.intros)
  qed
next
  assume "d = a \<or> (a < length (tasks w) \<and> (\<exists>c \<in> set (children (tasks w ! a)). descendant w c d))"
  then show "descendant w a d"
  proof
    assume "d = a" then show ?thesis by (simp add: descendant.self)
  next
    assume "a < length (tasks w) \<and> (\<exists>c \<in> set (children (tasks w ! a)). descendant w c d)"
    then obtain c where a: "a < length (tasks w)" and c: "c \<in> set (children (tasks w ! a))"
      and d: "descendant w c d" by blast
    have "descendant w a c" using a c by (auto intro: descendant.intros)
    with d show ?thesis by (rule descendant_trans)
  qed
qed

lemma well_formed_childD:
  assumes "well_formed w" "t < length (tasks w)" "c \<in> set (children (tasks w ! t))"
  shows "t < c" "c < length (tasks w)" "canceler (tasks w ! c) = ThenCanceler t c"
  using assms unfolding well_formed_def by blast+

lemma descendant_ge:
  assumes "well_formed w" "descendant w a d"
  shows "a \<le> d"
  using assms(2)
proof (induction rule: descendant.induct)
  case self
  show ?case by simp
next
  case (child p c)
  then show ?case using well_formed_childD(1)[OF assms(1), of p c] by simp
qed

lemma descendant_lt_length:
  assumes "well_formed w" "descendant w a d" "a < length (tasks w)"
  shows "d < length (tasks w)"
  using assms(2,3)
proof (induction rule: descendant.induct)
  case self
  then show ?case by simp
next
  case (child p c)
  then show ?case using well_formed_childD(2)[OF assms(1), of p c] by simp
qed

lemma p_cancel_returns:
  "well_formed w \<Longrightarrow> t < length (tasks w) \<Longrightarrow> length (tasks w) \<le> n + t
     \<Longrightarrow> \<exists>w'. p_cancel n ft t w = Some w'"
  "well_formed w \<Longrightarrow> \<forall>c \<in> set cs. c < length (tasks w) \<and> length (tasks w) \<le> n + c
     \<Longrightarrow> \<exists>w'. forEach_p_cancel n ft cs w = Some w'"
proof (induction n ft t w and n ft cs w rule: p_cancel_forEach_p_cancel.induct)
  case (1 finallyTask this w)
  then show ?case by simp
next
  case (2 n finallyTask this w)
  let ?w1 = "set_state this Canceled w"
  obtain ft' w2 where fb: "finally_block finallyTask this ?w1 = (ft', w2)"
    by (cases "finally_block finallyTask this ?w1")
  then have t2: "tasks w2 = tasks ?w1"
    using tasks_finally_block[of finallyTask this ?w1] by simp
  have sk: "map skel (tasks w2) = map skel (tasks w)"
    by (simp add: t2 skel_set_state)
  have wf2: "well_formed w2" using "2.prems"(1) well_formed_skel[OF sk] by simp
  have len: "length (tasks w2) = length (tasks w)" using same_skelD(1)[OF sk] .
  have ch: "children (tasks w2 ! this) = children (tasks w ! this)"
    using same_skelD(2)[OF sk "2.prems"(2)] .
  have "\<forall>c \<in> set (children (tasks w2 ! this)). c < length (tasks w2) \<and> length (tasks w2) \<le> n + c"
    using well_formed_childD(1,2)[OF "2.prems"(1,2)] "2.prems"(3) unfolding ch len by fastforce
  from "2.IH"[OF refl fb[symmetric] refl wf2 this] show ?case
    by (simp add: fb)
next
  case (3 n finallyTask w)
  then show ?case by simp
next
  case (4 n finallyTask child rest w)
  from "4.prems" have c: "child < length (tasks w)" "length (tasks w) \<le> n + child" by auto
  from "4.IH"(1)[OF "4.prems"(1) c] obtain w1 where a: "p_cancel n finallyTask child w = Some w1"
    by blast
  have sk: "map skel (tasks w1) = map skel (tasks w)" using p_cancel_skel(1)[OF a] .
  have wf1: "well_formed w1" using "4.prems"(1) well_formed_skel[OF sk] by simp
  have "\<forall>c \<in> set rest. c < length (tasks w1) \<and> length (tasks w1) \<le> n + c"
    using "4.prems"(2) same_skelD(1)[OF sk] by simp
  from "4.IH"(2)[OF a wf1 this] show ?case by (simp add: a)
qed

lemma state_set_state:
  "i < length (tasks w) \<Longrightarrow>
     state (tasks (set_state t s w) ! i) = (if i = t then s else state (tasks w ! i))"
  by (simp add: set_state_def nth_list_update)

lemma p_cancel_states:
  "well_formed w \<Longrightarrow> t < length (tasks w) \<Longrightarrow> p_cancel n ft t w = Some w' \<Longrightarrow>
     \<forall>i < length (tasks w).
       state (tasks w' ! i) = (if descendant w t i then Canceled else state (tasks w ! i))"
  "well_formed w \<Longrightarrow> \<forall>c \<in> set cs. c < length (tasks w) \<Longrightarrow>
     forEach_p_cancel n ft cs w = Some w' \<Longrightarrow>
     \<forall>i < length (tasks w).
       state (tasks w' ! i) =
         (if \<exists>c \<in> set cs. descendant w c i then Canceled else state (tasks w ! i))"
proof (induction n ft t w and n ft cs w arbitrary: w' and w' rule: p_cancel_forEach_p_cancel.induct)
  case (1 finallyTask this w)
  then show ?case by simp
next
  case (2 n finallyTask this w)
  let ?w1 = "set_state this Canceled w"
  obtain ft' w2 where fb: "finally_block finallyTask this ?w1 = (ft', w2)"
    by (cases "finally_block finallyTask this ?w1")
  then have t2: "tasks w2 = tasks ?w1"
    using tasks_finally_block[of finallyTask this ?w1] by simp
  have sk: "map skel (tasks w2) = map skel (tasks w)"
    by (simp add: t2 skel_set_state)
  have wf2: "well_formed w2" using "2.prems"(1) well_formed_skel[OF sk] by simp
  have len: "length (tasks w2) = length (tasks w)" using same_skelD(1)[OF sk] .
  have ch: "children (tasks w2 ! this) = children (tasks w ! this)"
    using same_skelD(2)[OF sk "2.prems"(2)] .
  have inr: "\<forall>c \<in> set (children (tasks w2 ! this)). c < length (tasks w2)"
    using well_formed_childD(2)[OF "2.prems"(1,2)] unfolding ch len by blast
  from "2.prems"(3) fb have run: "forEach_p_cancel n ft' (children (tasks w2 ! this)) w2 = Some w'"
    by simp
  note ih = "2.IH"[OF refl fb[symmetric] refl wf2 inr run]
  show ?case
  proof (intro allI impI)
    fix i assume i: "i < length (tasks w)"
    have s2: "state (tasks w2 ! i) = (if i = this then Canceled else state (tasks w ! i))"
      using i by (simp add: t2 state_set_state)
    have d: "descendant w this i \<longleftrightarrow>
        i = this \<or> (\<exists>c \<in> set (children (tasks w ! this)). descendant w c i)"
      using descendant_unfold[of w this i] "2.prems"(2) by simp
    from ih i have "state (tasks w' ! i) =
      (if \<exists>c \<in> set (children (tasks w2 ! this)). descendant w2 c i then Canceled
       else state (tasks w2 ! i))" by (simp add: len)
    then show "state (tasks w' ! i) = (if descendant w this i then Canceled else state (tasks w ! i))"
      unfolding ch descendant_skel[OF sk] s2 d by auto
  qed
next
  case (3 n finallyTask w)
  then show ?case by simp
next
  case (4 n finallyTask child rest w)
  from "4.prems" obtain w1 where a: "p_cancel n finallyTask child w = Some w1"
    and b: "forEach_p_cancel n finallyTask rest w1 = Some w'"
    by (auto split: option.splits)
  have sk: "map skel (tasks w1) = map skel (tasks w)" using p_cancel_skel(1)[OF a] .
  have wf1: "well_formed w1" using "4.prems"(1) well_formed_skel[OF sk] by simp
  have len: "length (tasks w1) = length (tasks w)" using same_skelD(1)[OF sk] .
  have c: "child < length (tasks w)" using "4.prems"(2) by simp
  have r: "\<forall>c \<in> set rest. c < length (tasks w1)" using "4.prems"(2) len by simp
  note ih1 = "4.IH"(1)[OF "4.prems"(1) c a]
  note ih2 = "4.IH"(2)[OF a wf1 r b]
  show ?case
  proof (intro allI impI)
    fix i assume i: "i < length (tasks w)"
    from ih1 i have s1: "state (tasks w1 ! i) = (if descendant w child i then Canceled else state (tasks w ! i))"
      by simp
    from ih2 i have "state (tasks w' ! i) =
      (if \<exists>c \<in> set rest. descendant w1 c i then Canceled else state (tasks w1 ! i))"
      by (simp add: len)
    then show "state (tasks w' ! i) =
         (if \<exists>c \<in> set (child # rest). descendant w c i then Canceled else state (tasks w ! i))"
      unfolding descendant_skel[OF sk] s1 by auto
  qed
qed

lemma escalation_not_Nil [simp]: "escalation w t \<noteq> []"
  unfolding escalation.simps[of w t] by (simp split: canceler.splits)

lemma tasks_add_logs [simp]: "tasks (add_logs es w) = tasks w"
  by (simp add: add_logs_def)

lemma log_add_logs [simp]: "log (add_logs es w) = log w @ es"
  by (simp add: add_logs_def)

lemma add_logs_add_log: "add_logs es (add_log e w) = add_logs (e # es) w"
  by (simp add: add_logs_def add_log_def)

lemma add_logs_Nil [simp]: "add_logs [] w = w"
  by (simp add: add_logs_def)

lemma add_log_conv: "add_log e w = add_logs [e] w"
  by (simp add: add_logs_def add_log_def)

lemma escalation_tasks:
  "tasks w' = tasks w \<Longrightarrow> escalation w' t = escalation w t"
proof (induction t rule: less_induct)
  case (less t)
  have "p < t \<Longrightarrow> escalation w' p = escalation w p" for p
    using less by blast
  then show ?case
    unfolding escalation.simps[of w' t] escalation.simps[of w t] less.prems
    by (simp split: canceler.splits)
qed

lemma p_cancel_fuel:
  assumes "well_formed w" "t < length (tasks w)" "length (tasks w) \<le> n + t"
    "length (tasks w) \<le> m + t"
  shows "p_cancel n ft t w = p_cancel m ft t w"
proof -
  from p_cancel_returns(1)[OF assms(1,2,3)] obtain w1 where 1: "p_cancel n ft t w = Some w1" by blast
  from p_cancel_returns(1)[OF assms(1,2,4)] obtain w2 where 2: "p_cancel m ft t w = Some w2" by blast
  show ?thesis
  proof (cases "n \<le> m")
    case True
    from p_cancel_mono(1)[OF 1 True] 2 1 show ?thesis by simp
  next
    case False
    then have "m \<le> n" by simp
    from p_cancel_mono(1)[OF 2 this] 2 1 show ?thesis by simp
  qed
qed

lemma well_formed_tasks: "tasks w' = tasks w \<Longrightarrow> well_formed w' = well_formed w"
  using well_formed_skel[of w' w] by simp

lemma well_formed_add_log [simp]: "well_formed (add_log e w) = well_formed w"
  by (rule well_formed_tasks) simp

lemma well_formed_add_logs [simp]: "well_formed (add_logs es w) = well_formed w"
  by (rule well_formed_tasks) simp

lemma escalation_add_log [simp]: "escalation (add_log e w) t = escalation w t"
  by (rule escalation_tasks) simp

lemma escalation_add_logs [simp]: "escalation (add_logs es w) t = escalation w t"
  by (rule escalation_tasks) simp

lemma well_formed_cancelerD:
  assumes "well_formed w" "t < length (tasks w)"
  shows "canceler (tasks w ! t) = RootCanceler h x \<Longrightarrow> x = t"
    and "canceler (tasks w ! t) = ThenCanceler p x \<Longrightarrow> x = t \<and> p < t \<and> t \<in> set (children (tasks w ! p))"
proof -
  from assms have k: "(case canceler (tasks w ! t) of
           RootCanceler h x \<Rightarrow> x = t
         | ThenCanceler p x \<Rightarrow> x = t \<and> p < t \<and> t \<in> set (children (tasks w ! p)))"
    unfolding well_formed_def by blast
  show "canceler (tasks w ! t) = RootCanceler h x \<Longrightarrow> x = t"
    using k by simp
  show "canceler (tasks w ! t) = ThenCanceler p x \<Longrightarrow> x = t \<and> p < t \<and> t \<in> set (children (tasks w ! p))"
    using k by simp
qed

lemma cancel_char:
  "well_formed w \<Longrightarrow> t < length (tasks w) \<Longrightarrow> state (tasks w ! t) = Pending \<Longrightarrow>
   length (tasks w) + t < n \<Longrightarrow>
   cancel n t w = finish (origin w t) (add_logs (map CancelerCalled (escalation w t)) w)"
proof (induction t arbitrary: n w rule: less_induct)
  case (less t)
  from less.prems(4) obtain k where n: "n = Suc k" and k: "length (tasks w) + t \<le> k"
    by (cases n) auto
  let ?w1 = "add_log (CancelerCalled t) w"
  have wf1: "well_formed ?w1" using less.prems(1) by simp
  have c1: "cancel n t w = run_canceler k (canceler (tasks w ! t)) ?w1"
    using less.prems(3) by (simp add: n)
  show ?case
  proof (cases "canceler (tasks w ! t)")
    case (RootCanceler h x)
    then have x: "x = t" using well_formed_cancelerD(1)[OF less.prems(1,2)] by simp
    have e: "escalation w t = [t]" using RootCanceler unfolding escalation.simps[of w t] by simp
    have pf: "p_cancel k Void t (add_log (HookCalled t) ?w1)
            = p_cancel (length (tasks w)) Void t (add_log (HookCalled t) ?w1)"
      by (rule p_cancel_fuel) (use less.prems k in simp_all)
    show ?thesis
      unfolding c1 RootCanceler x origin_def e finish_def
      using RootCanceler x pf by (simp add: add_log_conv split: hook.splits)
  next
    case (ThenCanceler p x)
    then have x: "x = t" and p: "p < t"
      using well_formed_cancelerD(2)[OF less.prems(1,2)] by simp_all
    show ?thesis
    proof (cases "state (tasks w ! p) = Pending")
      case True
      have e: "escalation w t = t # escalation w p"
        using ThenCanceler p True unfolding escalation.simps[of w t] by simp
      have ne: "escalation w p \<noteq> []" by simp
      have "cancel n t w = cancel k p ?w1"
        unfolding c1 ThenCanceler using True by simp
      also have "\<dots> = finish (origin ?w1 p) (add_logs (map CancelerCalled (escalation ?w1 p)) ?w1)"
        by (rule less.IH) (use p less.prems k True wf1 in simp_all)
      also have "\<dots> = finish (origin w t) (add_logs (map CancelerCalled (escalation w t)) w)"
        using ne by (simp add: origin_def e add_logs_add_log)
      finally show ?thesis .
    next
      case False
      have e: "escalation w t = [t]" using ThenCanceler False unfolding escalation.simps[of w t] by simp
      have pf: "p_cancel k Void t ?w1 = p_cancel (length (tasks w)) Void t ?w1"
        by (rule p_cancel_fuel) (use less.prems k in simp_all)
      show ?thesis
        unfolding c1 ThenCanceler x origin_def e finish_def
        using ThenCanceler x False pf by (simp add: add_log_conv)
    qed
  qed
qed

lemma skel_state_eq: "skel a = skel b \<Longrightarrow> state a = state b \<Longrightarrow> a = b"
  by (cases a, cases b) (simp add: skel_def)

lemma escalation_hd: "hd (escalation w t) = t"
  unfolding escalation.simps[of w t] by (simp split: canceler.splits)

lemma origin_descendant:
  "well_formed w \<Longrightarrow> t < length (tasks w) \<Longrightarrow>
     descendant w (origin w t) t \<and> origin w t \<le> t"
proof (induction t rule: less_induct)
  case (less t)
  show ?case
  proof (cases "canceler (tasks w ! t)")
    case (RootCanceler h x)
    then have "escalation w t = [t]" unfolding escalation.simps[of w t] by simp
    then show ?thesis by (simp add: origin_def descendant.self)
  next
    case (ThenCanceler p x)
    then have x: "x = t" and p: "p < t" and ch: "t \<in> set (children (tasks w ! p))"
      using well_formed_cancelerD(2)[OF less.prems] by simp_all
    show ?thesis
    proof (cases "state (tasks w ! p) = Pending")
      case True
      then have e: "escalation w t = t # escalation w p"
        using ThenCanceler p unfolding escalation.simps[of w t] by simp
      have o: "origin w t = origin w p" by (simp add: origin_def e)
      have pl: "p < length (tasks w)" using p less.prems(2) by simp
      from less.IH[OF p less.prems(1) pl] have "descendant w (origin w p) p" "origin w p \<le> p"
        by simp_all
      then show ?thesis unfolding o using descendant.child[OF _ pl ch] p by simp
    next
      case False
      then have "escalation w t = [t]" using ThenCanceler unfolding escalation.simps[of w t] by simp
      then show ?thesis by (simp add: origin_def descendant.self)
    qed
  qed
qed

lemma origin_state:
  "state (tasks w ! t) = Pending \<Longrightarrow> state (tasks w ! origin w t) = Pending"
proof (induction t rule: less_induct)
  case (less t)
  show ?case
  proof (cases "canceler (tasks w ! t)")
    case (RootCanceler h x)
    then have "escalation w t = [t]" unfolding escalation.simps[of w t] by simp
    then show ?thesis using less.prems by (simp add: origin_def)
  next
    case (ThenCanceler p x)
    show ?thesis
    proof (cases "p < t \<and> state (tasks w ! p) = Pending")
      case True
      then have e: "escalation w t = t # escalation w p"
        using ThenCanceler unfolding escalation.simps[of w t] by simp
      have o: "origin w t = origin w p" by (simp add: origin_def e)
      show ?thesis unfolding o using less.IH True by blast
    next
      case False
      then have "escalation w t = [t]" using ThenCanceler unfolding escalation.simps[of w t] by auto
      then show ?thesis using less.prems by (simp add: origin_def)
    qed
  qed
qed

lemma p_cancel_length:
  "p_cancel n ft t w = Some w' \<Longrightarrow> length (tasks w') = length (tasks w)"
  using same_skelD(1)[OF p_cancel_skel(1)] by blast

lemma finish_cases:
  assumes wf: "well_formed w" and a: "a < length (tasks w)"
  obtains (threw) e where "canceler (tasks w ! a) = RootCanceler (HookThrows e) a"
      "finish a w = Some (add_log (HookCalled a) w, Threw e)"
  | (root) w' where "canceler (tasks w ! a) = RootCanceler HookReturns a"
      "p_cancel (length (tasks w)) Void a (add_log (HookCalled a) w) = Some w'"
      "finish a w = Some (w', Returned)"
  | (chained) p w' where "canceler (tasks w ! a) = ThenCanceler p a"
      "p_cancel (length (tasks w)) Void a w = Some w'"
      "finish a w = Some (w', Returned)"
proof (cases "canceler (tasks w ! a)")
  case (RootCanceler h x)
  then have x: "x = a" using well_formed_cancelerD(1)[OF wf a] by simp
  show ?thesis
  proof (cases h)
    case HookReturns
    have "\<exists>w'. p_cancel (length (tasks w)) Void a (add_log (HookCalled a) w) = Some w'"
      by (rule p_cancel_returns(1)) (use wf a in simp_all)
    then obtain w' where "p_cancel (length (tasks w)) Void a (add_log (HookCalled a) w) = Some w'"
      by blast
    then show ?thesis using root RootCanceler x HookReturns by (simp add: finish_def)
  next
    case (HookThrows e)
    then show ?thesis using threw RootCanceler x by (simp add: finish_def)
  qed
next
  case (ThenCanceler p x)
  then have x: "x = a" using well_formed_cancelerD(2)[OF wf a] by simp
  have "\<exists>w'. p_cancel (length (tasks w)) Void a w = Some w'"
    by (rule p_cancel_returns(1)) (use wf a in simp_all)
  then obtain w' where "p_cancel (length (tasks w)) Void a w = Some w'" by blast
  then show ?thesis using chained ThenCanceler x by (simp add: finish_def)
qed

lemma task_cancel_char:
  assumes "well_formed w" "t < length (tasks w)" "state (tasks w ! t) = Pending"
  shows "task_cancel t w = finish (origin w t) (add_logs (map CancelerCalled (escalation w t)) w)"
  unfolding task_cancel_def
  by (rule cancel_char) (use assms in \<open>simp_all add: fuel_def\<close>)

lemma task_cancel_returns:
  assumes wf: "well_formed w" and t: "t < length (tasks w)"
  shows "\<exists>w' r. task_cancel t w = Some (w', r)"
proof (cases "state (tasks w ! t) = Pending")
  case True
  let ?w0 = "add_logs (map CancelerCalled (escalation w t)) w"
  have o: "origin w t < length (tasks ?w0)" using origin_descendant[OF wf t] t by simp
  have wf0: "well_formed ?w0" using wf by simp
  show ?thesis
    unfolding task_cancel_char[OF wf t True]
    by (rule finish_cases[OF wf0 o]) simp_all
next
  case False
  then show ?thesis by (simp add: task_cancel_def fuel_Suc)
qed

lemma p_cancel_frame:
  assumes wf: "well_formed w" and t: "t < length (tasks w)"
    and run: "p_cancel n ft t w = Some w'" and i: "i < length (tasks w)"
  shows "\<not> descendant w t i \<Longrightarrow> tasks w' ! i = tasks w ! i"
    and "descendant w t i \<Longrightarrow> state (tasks w' ! i) = Canceled"
    and "skel (tasks w' ! i) = skel (tasks w ! i)"
proof -
  note sk = p_cancel_skel(1)[OF run]
  have len: "length (tasks w') = length (tasks w)" using same_skelD(1)[OF sk] .
  show s: "skel (tasks w' ! i) = skel (tasks w ! i)"
    using sk i len by (metis nth_map)
  from p_cancel_states(1)[OF wf t run] i
  have st: "state (tasks w' ! i) = (if descendant w t i then Canceled else state (tasks w ! i))"
    by blast
  show "descendant w t i \<Longrightarrow> state (tasks w' ! i) = Canceled" using st by simp
  show "\<not> descendant w t i \<Longrightarrow> tasks w' ! i = tasks w ! i"
    using st s by (simp add: skel_state_eq)
qed

lemma descendant_add_log [simp]: "descendant (add_log e w) a d = descendant w a d"
  by (rule descendant_skel) simp

lemma descendant_add_logs [simp]: "descendant (add_logs es w) a d = descendant w a d"
  by (rule descendant_skel) simp

lemma descendant_in_subtree:
  assumes wf: "well_formed w"
  shows "descendant w a d \<Longrightarrow> in_subtree w a d"
proof (induction rule: descendant.induct)
  case self
  show ?case unfolding in_subtree.simps[of w a a] by simp
next
  case (child p c)
  from well_formed_childD[OF wf child.hyps(2,3)]
  have "p < c" "canceler (tasks w ! c) = ThenCanceler p c" by simp_all
  then show ?case unfolding in_subtree.simps[of w a c] using child.IH by simp
qed

lemma in_subtree_descendant:
  assumes wf: "well_formed w"
  shows "d < length (tasks w) \<Longrightarrow> in_subtree w a d \<Longrightarrow> descendant w a d"
proof (induction d rule: less_induct)
  case (less d)
  show ?case
  proof (cases "d = a")
    case True
    then show ?thesis by (simp add: descendant.self)
  next
    case False
    with less.prems(2) obtain p x where can: "canceler (tasks w ! d) = ThenCanceler p x"
      and p: "p < d" and sub: "in_subtree w a p"
      unfolding in_subtree.simps[of w a d] by (auto split: canceler.splits if_splits)
    from well_formed_cancelerD(2)[OF wf less.prems(1) can]
    have ch: "d \<in> set (children (tasks w ! p))" by simp
    have pl: "p < length (tasks w)" using p less.prems(1) by simp
    from less.IH[OF p pl sub] have "descendant w a p" .
    then show ?thesis using pl ch by (rule descendant.child)
  qed
qed

lemma descendant_iff:
  "well_formed w \<Longrightarrow> d < length (tasks w) \<Longrightarrow> descendant w a d = in_subtree w a d"
  using descendant_in_subtree in_subtree_descendant by blast

lemma fulfilled_parent_run:
  "run init [New HookReturns, Resolve 0 (Val 1), Then 0 (Some (Handler (Inr (Val 2)))) None,
     Then 1 (Some (Handler (Inr (Val 3)))) None, Then 0 (Some (Handler (Inr (Val 4)))) None]
   = Some fulfilled_parent"
  by code_simp

lemma well_formed_code [code]:
  "well_formed w =
     (\<forall>t \<in> set [0..<length (tasks w)].
        distinct (children (tasks w ! t)) \<and>
        (\<forall>c \<in> set (children (tasks w ! t)).
           t < c \<and> c < length (tasks w) \<and> canceler (tasks w ! c) = ThenCanceler t c) \<and>
        (case canceler (tasks w ! t) of
           RootCanceler h x \<Rightarrow> x = t
         | ThenCanceler p x \<Rightarrow> x = t \<and> p < t \<and> t \<in> set (children (tasks w ! p))))"
  unfolding well_formed_def by (simp add: Ball_def)

subsection \<open>Stores made by the operations\<close>

lemma finally_block_log:
  "\<exists>es. log (snd (finally_block ft t w)) = log w @ es \<and> (\<forall>e \<in> set es. is_finally_event e)"
  by (auto simp: finally_block_def split: option.splits)

lemma p_cancel_log:
  "p_cancel n ft t w = Some w' \<Longrightarrow>
     \<exists>es. log w' = log w @ es \<and> (\<forall>e \<in> set es. is_finally_event e)"
  "forEach_p_cancel n ft cs w = Some w' \<Longrightarrow>
     \<exists>es. log w' = log w @ es \<and> (\<forall>e \<in> set es. is_finally_event e)"
proof (induction n ft t w and n ft cs w arbitrary: w' and w' rule: p_cancel_forEach_p_cancel.induct)
  case (1 finallyTask this w)
  then show ?case by simp
next
  case (2 n finallyTask this w)
  let ?w1 = "set_state this Canceled w"
  obtain ft' w2 where fb: "finally_block finallyTask this ?w1 = (ft', w2)"
    by (cases "finally_block finallyTask this ?w1")
  from finally_block_log[of finallyTask this ?w1] fb
  obtain es1 where 1: "log w2 = log w @ es1" "\<forall>e \<in> set es1. is_finally_event e" by auto
  from "2.prems" fb have run: "forEach_p_cancel n ft' (children (tasks w2 ! this)) w2 = Some w'"
    by simp
  from "2.IH"[OF refl fb[symmetric] refl run]
  obtain es2 where 2: "log w' = log w2 @ es2" "\<forall>e \<in> set es2. is_finally_event e" by auto
  have "log w' = log w @ (es1 @ es2)" using 1 2 by simp
  moreover have "\<forall>e \<in> set (es1 @ es2). is_finally_event e" using 1 2 by auto
  ultimately show ?case by blast
next
  case (3 n finallyTask w)
  then show ?case by simp
next
  case (4 n finallyTask child rest w)
  from "4.prems" obtain w1 where a: "p_cancel n finallyTask child w = Some w1"
    and b: "forEach_p_cancel n finallyTask rest w1 = Some w'"
    by (auto split: option.splits)
  from "4.IH"(1)[OF a] obtain es1 where 1: "log w1 = log w @ es1" "\<forall>e \<in> set es1. is_finally_event e"
    by auto
  from "4.IH"(2)[OF a b] obtain es2 where 2: "log w' = log w1 @ es2" "\<forall>e \<in> set es2. is_finally_event e"
    by auto
  have "log w' = log w @ (es1 @ es2)" using 1 2 by simp
  moreover have "\<forall>e \<in> set (es1 @ es2). is_finally_event e" using 1 2 by auto
  ultimately show ?case by blast
qed

text \<open>The effect of a cancel on a Pending task of a well-formed store, in one statement.\<close>

lemma task_cancel_effect:
  assumes wf: "well_formed w" and t: "t < length (tasks w)" and pend: "state (tasks w ! t) = Pending"
  obtains (threw) e where
      "canceler (tasks w ! origin w t) = RootCanceler (HookThrows e) (origin w t)"
      "task_cancel t w =
         Some (add_logs (map CancelerCalled (escalation w t) @ [HookCalled (origin w t)]) w, Threw e)"
  | (returned) w' hs fs where
      "task_cancel t w = Some (w', Returned)"
      "log w' = log w @ map CancelerCalled (escalation w t) @ hs @ fs"
      "\<And>x. canceler (tasks w ! origin w t) = RootCanceler HookReturns x \<Longrightarrow> hs = [HookCalled (origin w t)]"
      "\<And>p x. canceler (tasks w ! origin w t) = ThenCanceler p x \<Longrightarrow> hs = []"
      "\<And>e x. canceler (tasks w ! origin w t) \<noteq> RootCanceler (HookThrows e) x"
      "set hs \<subseteq> {HookCalled (origin w t)}"
      "\<forall>e \<in> set fs. is_finally_event e"
      "map skel (tasks w') = map skel (tasks w)"
      "\<forall>i < length (tasks w).
         state (tasks w' ! i) = (if descendant w (origin w t) i then Canceled else state (tasks w ! i))"
proof -
  let ?a = "origin w t"
  let ?w0 = "add_logs (map CancelerCalled (escalation w t)) w"
  have wf0: "well_formed ?w0" using wf by simp
  have al: "?a < length (tasks ?w0)" using origin_descendant[OF wf t] t by simp
  have tc: "task_cancel t w = finish ?a ?w0" by (rule task_cancel_char[OF wf t pend])
  show ?thesis
  proof (rule finish_cases[OF wf0 al])
    fix e assume "canceler (tasks ?w0 ! ?a) = RootCanceler (HookThrows e) ?a"
      "finish ?a ?w0 = Some (add_log (HookCalled ?a) ?w0, Threw e)"
    then show ?thesis using threw[of e] tc by (simp add: add_logs_def add_log_def)
  next
    fix w' assume can: "canceler (tasks ?w0 ! ?a) = RootCanceler HookReturns ?a"
      and run: "p_cancel (length (tasks ?w0)) Void ?a (add_log (HookCalled ?a) ?w0) = Some w'"
      and f: "finish ?a ?w0 = Some (w', Returned)"
    from p_cancel_log(1)[OF run] obtain fs where
      fs: "log w' = log w @ map CancelerCalled (escalation w t) @ [HookCalled ?a] @ fs"
      "\<forall>e \<in> set fs. is_finally_event e" by auto
    have sk: "map skel (tasks w') = map skel (tasks w)" using p_cancel_skel(1)[OF run] by simp
    have st: "\<forall>i < length (tasks w).
         state (tasks w' ! i) = (if descendant w ?a i then Canceled else state (tasks w ! i))"
      using p_cancel_states(1)[OF _ _ run] wf al by simp
    show ?thesis
      by (rule returned[of w' "[HookCalled ?a]" fs]) (use can tc f fs sk st in auto)
  next
    fix p w' assume can: "canceler (tasks ?w0 ! ?a) = ThenCanceler p ?a"
      and run: "p_cancel (length (tasks ?w0)) Void ?a ?w0 = Some w'"
      and f: "finish ?a ?w0 = Some (w', Returned)"
    from p_cancel_log(1)[OF run] obtain fs where
      fs: "log w' = log w @ map CancelerCalled (escalation w t) @ [] @ fs"
      "\<forall>e \<in> set fs. is_finally_event e" by auto
    have sk: "map skel (tasks w') = map skel (tasks w)" using p_cancel_skel(1)[OF run] by simp
    have st: "\<forall>i < length (tasks w).
         state (tasks w' ! i) = (if descendant w ?a i then Canceled else state (tasks w ! i))"
      using p_cancel_states(1)[OF _ _ run] wf al by simp
    show ?thesis
      by (rule returned[of w' "[]" fs]) (use can tc f fs sk st in auto)
  qed
qed

lemma new_task_facts:
  assumes "w' = fst (new_task h w)"
  shows "length (tasks w') = Suc (length (tasks w))"
    and "log w' = log w"
    and "i < length (tasks w) \<Longrightarrow> tasks w' ! i = tasks w ! i"
    and "tasks w' ! length (tasks w) =
          \<lparr>state = Pending, canceler = RootCanceler h (length (tasks w)), children = [],
           task_finally = None, onFulfilled = None, onRejected = None, settled = None\<rparr>"
  using assms by (simp_all add: new_task_def Let_def nth_append)

lemma task_then_facts:
  assumes "w' = fst (task_then t onF onR w)" and t: "t < length (tasks w)"
  shows "length (tasks w') = Suc (length (tasks w))"
    and "log w' = log w"
    and "i < length (tasks w) \<Longrightarrow> i \<noteq> t \<Longrightarrow> tasks w' ! i = tasks w ! i"
    and "tasks w' ! t = (tasks w ! t)\<lparr>children := children (tasks w ! t) @ [length (tasks w)]\<rparr>"
    and "tasks w' ! length (tasks w) =
          \<lparr>state = Pending, canceler = ThenCanceler t (length (tasks w)), children = [],
           task_finally = None, onFulfilled = onF, onRejected = onR, settled = None\<rparr>"
  using assms by (simp_all add: task_then_def Let_def nth_append nth_list_update)

lemma finally_task_facts:
  assumes "w' = fst (finally_task t cb w)" and t: "t < length (tasks w)"
  shows "length (tasks w') = Suc (length (tasks w))"
    and "log w' = log w"
    and "i < length (tasks w) \<Longrightarrow> i \<noteq> t \<Longrightarrow> tasks w' ! i = tasks w ! i"
    and "tasks w' ! t = (tasks w ! t)\<lparr>children := children (tasks w ! t) @ [length (tasks w)]\<rparr>"
    and "tasks w' ! length (tasks w) =
          \<lparr>state = Pending, canceler = ThenCanceler t (length (tasks w)), children = [],
           task_finally = Some cb, onFulfilled = Some (FinallyHandler cb),
           onRejected = Some (FinallyHandler cb), settled = None\<rparr>"
  using assms
  by (simp_all add: finally_task_def task_then_def Let_def nth_append nth_list_update)

text \<open>A store that grew by one chained Task.\<close>

lemma chained_invariant:
  assumes inv: "invariant w" and t: "t < length (tasks w)"
    and len: "length (tasks w') = Suc (length (tasks w))"
    and lg: "log w' = log w"
    and old: "\<And>i. i < length (tasks w) \<Longrightarrow> i \<noteq> t \<Longrightarrow> tasks w' ! i = tasks w ! i"
    and par: "tasks w' ! t = (tasks w ! t)\<lparr>children := children (tasks w ! t) @ [length (tasks w)]\<rparr>"
    and nw: "state (tasks w' ! length (tasks w)) = Pending"
      "canceler (tasks w' ! length (tasks w)) = ThenCanceler t (length (tasks w))"
      "children (tasks w' ! length (tasks w)) = []"
      "settled (tasks w' ! length (tasks w)) = None"
  shows "invariant w'"
proof -
  let ?L = "length (tasks w)"
  from inv have wf: "well_formed w" and pa: "pending_above w" and si: "settled_inv w"
    and hi: "hook_inv w" by (simp_all add: invariant_def)
  have st: "state (tasks w' ! i) = state (tasks w ! i)" if "i < ?L" for i
    using old[of i] par that by (cases "i = t") simp_all
  have cn: "canceler (tasks w' ! i) = canceler (tasks w ! i)" if "i < ?L" for i
    using old[of i] par that by (cases "i = t") simp_all
  have se: "settled (tasks w' ! i) = settled (tasks w ! i)" if "i < ?L" for i
    using old[of i] par that by (cases "i = t") simp_all
  have ch: "children (tasks w' ! i) = (if i = t then children (tasks w ! t) @ [?L] else children (tasks w ! i))"
    if "i < ?L" for i
    using old[of i] par that by (cases "i = t") simp_all
  have chlt: "c < ?L" if "i < ?L" "c \<in> set (children (tasks w ! i))" for i c
    using well_formed_childD(2)[OF wf that] .
  have "well_formed w'"
    unfolding well_formed_def
  proof (intro allI impI)
    fix i assume "i < length (tasks w')"
    then consider (old) "i < ?L" | (new) "i = ?L" using len by (auto simp: less_Suc_eq)
    then show "distinct (children (tasks w' ! i)) \<and>
      (\<forall>c \<in> set (children (tasks w' ! i)).
         i < c \<and> c < length (tasks w') \<and> canceler (tasks w' ! c) = ThenCanceler i c) \<and>
      (case canceler (tasks w' ! i) of
         RootCanceler h x \<Rightarrow> x = i
       | ThenCanceler p x \<Rightarrow> x = i \<and> p < i \<and> i \<in> set (children (tasks w' ! p)))"
    proof cases
      case old
      from wf old have d: "distinct (children (tasks w ! i))"
        and c: "\<forall>c \<in> set (children (tasks w ! i)).
           i < c \<and> c < ?L \<and> canceler (tasks w ! c) = ThenCanceler i c"
        and k: "(case canceler (tasks w ! i) of
           RootCanceler h x \<Rightarrow> x = i
         | ThenCanceler p x \<Rightarrow> x = i \<and> p < i \<and> i \<in> set (children (tasks w ! p)))"
        unfolding well_formed_def by blast+
      have 1: "distinct (children (tasks w' ! i))"
        using d ch[OF old] chlt[OF old] by auto
      have 2: "\<forall>c \<in> set (children (tasks w' ! i)).
         i < c \<and> c < length (tasks w') \<and> canceler (tasks w' ! c) = ThenCanceler i c"
        using c ch[OF old] cn nw(2) old len by auto
      have 3: "(case canceler (tasks w' ! i) of
         RootCanceler h x \<Rightarrow> x = i
       | ThenCanceler p x \<Rightarrow> x = i \<and> p < i \<and> i \<in> set (children (tasks w' ! p)))"
      proof (cases "canceler (tasks w ! i)")
        case (RootCanceler h x)
        then show ?thesis using k cn[OF old] by simp
      next
        case (ThenCanceler p x)
        with k have "x = i" "p < i" "i \<in> set (children (tasks w ! p))" by simp_all
        moreover have "p < ?L" using \<open>p < i\<close> old by simp
        ultimately show ?thesis using ThenCanceler cn[OF old] ch[of p] by auto
      qed
      from 1 2 3 show ?thesis by blast
    next
      case new
      show ?thesis unfolding new using nw(2,3) t ch[OF t] by simp
    qed
  qed
  moreover have "pending_above w'"
    unfolding pending_above_def
  proof (intro allI impI)
    fix c p x assume c: "c < length (tasks w')"
      and can: "canceler (tasks w' ! c) = ThenCanceler p x"
      and pp: "state (tasks w' ! p) = Pending"
    show "state (tasks w' ! c) = Pending"
    proof (cases "c < ?L")
      case True
      then have can0: "canceler (tasks w ! c) = ThenCanceler p x" using can cn by simp
      then have "p < c" using well_formed_cancelerD(2)[OF wf True] by simp
      then have "p < ?L" using True by simp
      then show ?thesis using pa True can0 pp st unfolding pending_above_def by metis
    next
      case False
      then have "c = ?L" using c len by simp
      then show ?thesis using nw(1) by simp
    qed
  qed
  moreover have "settled_inv w'"
    unfolding settled_inv_def
  proof (intro allI impI)
    fix i assume i: "i < length (tasks w')" and s: "settled (tasks w' ! i) \<noteq> None"
    show "state (tasks w' ! i) \<noteq> Pending"
    proof (cases "i < ?L")
      case True
      then show ?thesis using si s se st unfolding settled_inv_def by metis
    next
      case False
      then have "i = ?L" using i len by simp
      then show ?thesis using s nw(4) by simp
    qed
  qed
  moreover have "hook_inv w'"
    unfolding hook_inv_def lg
  proof (intro conjI allI impI)
    fix i assume "HookCalled i \<in> set (log w)"
    then show "i < length (tasks w')" using hi len unfolding hook_inv_def by fastforce
  next
    fix i x assume i: "i < length (tasks w')"
      and can: "canceler (tasks w' ! i) = RootCanceler HookReturns x"
    have il: "i < ?L" using i len can nw(2) by (cases "i = ?L") auto
    then have "canceler (tasks w ! i) = RootCanceler HookReturns x" using can cn by simp
    with hi il have "count_list (log w) (HookCalled i) \<le> 1"
      "HookCalled i \<in> set (log w) \<longrightarrow> state (tasks w ! i) \<noteq> Pending"
      unfolding hook_inv_def by blast+
    then show "count_list (log w) (HookCalled i) \<le> 1"
      "HookCalled i \<in> set (log w) \<Longrightarrow> state (tasks w' ! i) \<noteq> Pending"
      using st[OF il] by simp_all
  qed
  ultimately show ?thesis by (simp add: invariant_def)
qed

lemma then_invariant:
  assumes "invariant w" "t < length (tasks w)"
  shows "invariant (fst (task_then t onF onR w))"
  by (rule chained_invariant[OF assms])
     (simp_all add: task_then_facts[OF refl assms(2)])

lemma finally_invariant:
  assumes "invariant w" "t < length (tasks w)"
  shows "invariant (fst (finally_task t cb w))"
  by (rule chained_invariant[OF assms])
     (simp_all add: finally_task_facts[OF refl assms(2)])

lemma well_formed_links:
  assumes len: "length (tasks w') = length (tasks w)"
    and cn: "\<And>i. i < length (tasks w) \<Longrightarrow> canceler (tasks w' ! i) = canceler (tasks w ! i)"
    and ch: "\<And>i. i < length (tasks w) \<Longrightarrow> children (tasks w' ! i) = children (tasks w ! i)"
    and wf: "well_formed w"
  shows "well_formed w'"
  unfolding well_formed_def
proof (intro allI impI)
  fix t assume "t < length (tasks w')"
  then have t: "t < length (tasks w)" using len by simp
  from wf t have d: "distinct (children (tasks w ! t))"
    and c: "\<forall>c \<in> set (children (tasks w ! t)).
           t < c \<and> c < length (tasks w) \<and> canceler (tasks w ! c) = ThenCanceler t c"
    and k: "(case canceler (tasks w ! t) of
           RootCanceler h x \<Rightarrow> x = t
         | ThenCanceler p x \<Rightarrow> x = t \<and> p < t \<and> t \<in> set (children (tasks w ! p)))"
    unfolding well_formed_def by blast+
  have 1: "distinct (children (tasks w' ! t))" using d ch[OF t] by simp
  have 2: "\<forall>c \<in> set (children (tasks w' ! t)).
           t < c \<and> c < length (tasks w') \<and> canceler (tasks w' ! c) = ThenCanceler t c"
    using c ch[OF t] cn len by simp
  have 3: "(case canceler (tasks w' ! t) of
           RootCanceler h x \<Rightarrow> x = t
         | ThenCanceler p x \<Rightarrow> x = t \<and> p < t \<and> t \<in> set (children (tasks w' ! p)))"
  proof (cases "canceler (tasks w ! t)")
    case (RootCanceler h x)
    then show ?thesis using k cn[OF t] by simp
  next
    case (ThenCanceler p x)
    with k have "x = t" "p < t" "t \<in> set (children (tasks w ! p))" by simp_all
    moreover have "p < length (tasks w)" using \<open>p < t\<close> t by simp
    ultimately show ?thesis using ThenCanceler cn[OF t] ch[of p] by simp
  qed
  from 1 2 3 show "distinct (children (tasks w' ! t)) \<and>
        (\<forall>c \<in> set (children (tasks w' ! t)).
           t < c \<and> c < length (tasks w') \<and> canceler (tasks w' ! c) = ThenCanceler t c) \<and>
        (case canceler (tasks w' ! t) of
           RootCanceler h x \<Rightarrow> x = t
         | ThenCanceler p x \<Rightarrow> x = t \<and> p < t \<and> t \<in> set (children (tasks w' ! p)))"
    by blast
qed

text \<open>A step that keeps the Tasks and their links and only moves Pending Tasks on.\<close>

lemma moved_invariant:
  assumes inv: "invariant w"
    and len: "length (tasks w') = length (tasks w)"
    and cn: "\<And>i. i < length (tasks w) \<Longrightarrow> canceler (tasks w' ! i) = canceler (tasks w ! i)"
    and ch: "\<And>i. i < length (tasks w) \<Longrightarrow> children (tasks w' ! i) = children (tasks w ! i)"
    and mono: "\<And>i. i < length (tasks w) \<Longrightarrow> state (tasks w ! i) \<noteq> Pending \<Longrightarrow>
                 state (tasks w' ! i) = state (tasks w ! i)"
    and pa': "pending_above w'"
    and se: "\<And>i. i < length (tasks w) \<Longrightarrow> settled (tasks w' ! i) \<noteq> None \<Longrightarrow>
                 state (tasks w' ! i) \<noteq> Pending"
    and lg: "log w' = log w @ es"
    and hk: "\<And>t. HookCalled t \<in> set es \<Longrightarrow>
                 t < length (tasks w) \<and>
                 (\<forall>x. canceler (tasks w ! t) = RootCanceler HookReturns x \<longrightarrow>
                    state (tasks w ! t) = Pending \<and>
                    state (tasks w' ! t) \<noteq> Pending \<and> count_list es (HookCalled t) = 1)"
  shows "invariant w'"
proof -
  from inv have wf: "well_formed w" and hi: "hook_inv w" by (simp_all add: invariant_def)
  have "well_formed w'" by (rule well_formed_links[OF len cn ch wf])
  moreover have "settled_inv w'" unfolding settled_inv_def using se len by simp
  moreover have "hook_inv w'"
    unfolding hook_inv_def
  proof (intro conjI allI impI)
    fix t assume "HookCalled t \<in> set (log w')"
    then show "t < length (tasks w')" using hi hk[of t] len lg unfolding hook_inv_def by auto
  next
    fix t x assume t: "t < length (tasks w')"
      and can: "canceler (tasks w' ! t) = RootCanceler HookReturns x"
    have tl: "t < length (tasks w)" using t len by simp
    then have "canceler (tasks w ! t) = RootCanceler HookReturns x" using can cn by simp
    then have can0: "canceler (tasks w ! t) = RootCanceler HookReturns x" .
    with hi tl have c1: "count_list (log w) (HookCalled t) \<le> 1"
      and c2: "HookCalled t \<in> set (log w) \<Longrightarrow> state (tasks w ! t) \<noteq> Pending"
      unfolding hook_inv_def by blast+
    show "count_list (log w') (HookCalled t) \<le> 1"
    proof (cases "HookCalled t \<in> set es")
      case True
      from hk[OF True] can0 c2 have "HookCalled t \<notin> set (log w)" "count_list es (HookCalled t) = 1"
        by auto
      then show ?thesis by (simp add: lg count_list_0_iff)
    next
      case False
      then show ?thesis using c1 by (simp add: lg count_list_0_iff)
    qed
    show "state (tasks w' ! t) \<noteq> Pending" if "HookCalled t \<in> set (log w')"
    proof (cases "HookCalled t \<in> set es")
      case True
      then show ?thesis using hk can0 by blast
    next
      case False
      then have "HookCalled t \<in> set (log w)" using that lg by simp
      then show ?thesis using c2 mono[OF tl] by simp
    qed
  qed
  ultimately show ?thesis using pa' by (simp add: invariant_def)
qed

lemma new_invariant:
  assumes inv: "invariant w"
  shows "invariant (fst (new_task h w))"
proof -
  let ?w' = "fst (new_task h w)"
  let ?L = "length (tasks w)"
  note f = new_task_facts[OF refl, where h=h and w=w]
  from inv have wf: "well_formed w" and pa: "pending_above w" and si: "settled_inv w"
    and hi: "hook_inv w" by (simp_all add: invariant_def)
  have "well_formed ?w'"
    unfolding well_formed_def
  proof (intro allI impI)
    fix i assume "i < length (tasks ?w')"
    then consider (old) "i < ?L" | (new) "i = ?L" using f(1) by (auto simp: less_Suc_eq)
    then show "distinct (children (tasks ?w' ! i)) \<and>
      (\<forall>c \<in> set (children (tasks ?w' ! i)).
         i < c \<and> c < length (tasks ?w') \<and> canceler (tasks ?w' ! c) = ThenCanceler i c) \<and>
      (case canceler (tasks ?w' ! i) of
         RootCanceler h x \<Rightarrow> x = i
       | ThenCanceler p x \<Rightarrow> x = i \<and> p < i \<and> i \<in> set (children (tasks ?w' ! p)))"
    proof cases
      case old
      from wf old have d: "distinct (children (tasks w ! i))"
        and c: "\<forall>c \<in> set (children (tasks w ! i)).
           i < c \<and> c < ?L \<and> canceler (tasks w ! c) = ThenCanceler i c"
        and k: "(case canceler (tasks w ! i) of
           RootCanceler h x \<Rightarrow> x = i
         | ThenCanceler p x \<Rightarrow> x = i \<and> p < i \<and> i \<in> set (children (tasks w ! p)))"
        unfolding well_formed_def by blast+
      have 2: "\<forall>c \<in> set (children (tasks ?w' ! i)).
         i < c \<and> c < length (tasks ?w') \<and> canceler (tasks ?w' ! c) = ThenCanceler i c"
        using c f(1) f(3) old by (auto simp: less_Suc_eq)
      have 3: "(case canceler (tasks ?w' ! i) of
         RootCanceler h x \<Rightarrow> x = i
       | ThenCanceler p x \<Rightarrow> x = i \<and> p < i \<and> i \<in> set (children (tasks ?w' ! p)))"
      proof (cases "canceler (tasks w ! i)")
        case (RootCanceler h x)
        then show ?thesis using k f(3)[OF old] by simp
      next
        case (ThenCanceler p x)
        with k have "x = i" "p < i" "i \<in> set (children (tasks w ! p))" by simp_all
        moreover have "p < ?L" using \<open>p < i\<close> old by simp
        ultimately show ?thesis using ThenCanceler f(3)[OF old] f(3)[of p] by simp
      qed
      from d 2 3 f(3)[OF old] show ?thesis by simp
    next
      case new
      show ?thesis unfolding new f(4) by simp
    qed
  qed
  moreover have "pending_above ?w'"
    unfolding pending_above_def
  proof (intro allI impI)
    fix c p x assume c: "c < length (tasks ?w')"
      and can: "canceler (tasks ?w' ! c) = ThenCanceler p x"
      and pp: "state (tasks ?w' ! p) = Pending"
    have cl: "c < ?L" using c can f(1) f(4) by (cases "c = ?L") auto
    then have can0: "canceler (tasks w ! c) = ThenCanceler p x" using can f(3) by simp
    then have "p < c" using well_formed_cancelerD(2)[OF wf cl] by simp
    then have "p < ?L" using cl by simp
    then show "state (tasks ?w' ! c) = Pending"
      using pa cl can0 pp f(3) unfolding pending_above_def by metis
  qed
  moreover have "settled_inv ?w'"
    unfolding settled_inv_def
  proof (intro allI impI)
    fix i assume i: "i < length (tasks ?w')" and s: "settled (tasks ?w' ! i) \<noteq> None"
    have il: "i < ?L" using i s f(1) f(4) by (cases "i = ?L") auto
    then show "state (tasks ?w' ! i) \<noteq> Pending"
      using si s f(3) unfolding settled_inv_def by metis
  qed
  moreover have "hook_inv ?w'"
    unfolding hook_inv_def f(2)
  proof (intro conjI allI impI)
    fix i assume "HookCalled i \<in> set (log w)"
    then show "i < length (tasks ?w')" using hi f(1) unfolding hook_inv_def by fastforce
  next
    fix i x assume i: "i < length (tasks ?w')"
      and can: "canceler (tasks ?w' ! i) = RootCanceler HookReturns x"
    have nl: "HookCalled ?L \<notin> set (log w)" using hi unfolding hook_inv_def by fastforce
    show "count_list (log w) (HookCalled i) \<le> 1"
    proof (cases "i < ?L")
      case True
      then show ?thesis using hi can f(3) unfolding hook_inv_def by metis
    next
      case False
      then have "i = ?L" using i f(1) by simp
      then show ?thesis using nl by (simp add: count_list_0_iff)
    qed
    show "state (tasks ?w' ! i) \<noteq> Pending" if h: "HookCalled i \<in> set (log w)"
    proof (cases "i < ?L")
      case True
      then show ?thesis using hi can h f(3) unfolding hook_inv_def by metis
    next
      case False
      then have "i = ?L" using i f(1) by simp
      then show ?thesis using nl h by simp
    qed
  qed
  ultimately show ?thesis by (simp add: invariant_def)
qed

lemma base_resolve_facts:
  assumes t: "t < length (tasks w)" and w': "w' = base_resolve t v w"
  shows "length (tasks w') = length (tasks w)"
    and "log w' = log w @ [BaseResolve t v]"
    and "i \<noteq> t \<Longrightarrow> tasks w' ! i = tasks w ! i"
    and "canceler (tasks w' ! t) = canceler (tasks w ! t)"
    and "children (tasks w' ! t) = children (tasks w ! t)"
    and "state (tasks w ! t) = Pending \<Longrightarrow> state (tasks w' ! t) = Fulfilled"
    and "state (tasks w ! t) \<noteq> Pending \<Longrightarrow> tasks w' ! t = tasks w ! t"
    and "settled (tasks w' ! t) \<noteq> None \<Longrightarrow> state (tasks w ! t) = Pending \<Longrightarrow> state (tasks w' ! t) \<noteq> Pending"
  using t unfolding w' by (simp_all add: base_resolve_def Let_def)

lemma base_reject_facts:
  assumes t: "t < length (tasks w)" and w': "w' = base_reject t e w"
  shows "length (tasks w') = length (tasks w)"
    and "log w' = log w @ [BaseReject t e]"
    and "i \<noteq> t \<Longrightarrow> tasks w' ! i = tasks w ! i"
    and "canceler (tasks w' ! t) = canceler (tasks w ! t)"
    and "children (tasks w' ! t) = children (tasks w ! t)"
    and "state (tasks w ! t) = Pending \<Longrightarrow> state (tasks w' ! t) = Rejected"
    and "state (tasks w ! t) \<noteq> Pending \<Longrightarrow> tasks w' ! t = tasks w ! t"
    and "settled (tasks w' ! t) \<noteq> None \<Longrightarrow> state (tasks w ! t) = Pending \<Longrightarrow> state (tasks w' ! t) \<noteq> Pending"
  using t unfolding w' by (simp_all add: base_reject_def Let_def)

text \<open>A step that at most settles the Pending Task \<open>t\<close>, whose parent is not Pending.\<close>

lemma settle_invariant:
  assumes inv: "invariant w" and t: "t < length (tasks w)"
    and len: "length (tasks w') = length (tasks w)"
    and oth: "\<And>i. i \<noteq> t \<Longrightarrow> tasks w' ! i = tasks w ! i"
    and cn: "canceler (tasks w' ! t) = canceler (tasks w ! t)"
    and ch: "children (tasks w' ! t) = children (tasks w ! t)"
    and mv: "tasks w' ! t = tasks w ! t \<or>
             (state (tasks w ! t) = Pending \<and> state (tasks w' ! t) \<noteq> Pending)"
    and par: "\<And>p x. canceler (tasks w ! t) = ThenCanceler p x \<Longrightarrow>
                state (tasks w ! p) \<noteq> Pending"
    and lg: "log w' = log w @ es"
    and hk: "\<And>x. HookCalled x \<notin> set es"
  shows "invariant w'"
proof (rule moved_invariant[OF inv len _ _ _ _ _ lg])
  from inv have wf: "well_formed w" and pa: "pending_above w" and si: "settled_inv w"
    by (simp_all add: invariant_def)
  show "canceler (tasks w' ! i) = canceler (tasks w ! i)" for i
    using oth[of i] cn by (cases "i = t") simp_all
  show "children (tasks w' ! i) = children (tasks w ! i)" for i
    using oth[of i] ch by (cases "i = t") simp_all
  show mono: "state (tasks w ! i) \<noteq> Pending \<Longrightarrow> state (tasks w' ! i) = state (tasks w ! i)" for i
    using oth[of i] mv by (cases "i = t") auto
  show "pending_above w'"
    unfolding pending_above_def
  proof (intro allI impI)
    fix c p x assume c: "c < length (tasks w')"
      and can: "canceler (tasks w' ! c) = ThenCanceler p x"
      and pp: "state (tasks w' ! p) = Pending"
    have cl: "c < length (tasks w)" using c len by simp
    have can0: "canceler (tasks w ! c) = ThenCanceler p x"
      using can oth[of c] cn by (cases "c = t") simp_all
    have p0: "state (tasks w ! p) = Pending"
      using pp oth[of p] mv by (cases "p = t") auto
    have c0: "state (tasks w ! c) = Pending"
      using pa cl can0 p0 unfolding pending_above_def by blast
    have "c \<noteq> t" using par can0 p0 by blast
    then show "state (tasks w' ! c) = Pending" using c0 oth by simp
  qed
  show "state (tasks w' ! i) \<noteq> Pending"
    if "i < length (tasks w)" "settled (tasks w' ! i) \<noteq> None" for i
  proof (cases "i = t")
    case True
    from mv show ?thesis
    proof
      assume "tasks w' ! t = tasks w ! t"
      then show ?thesis using that si True unfolding settled_inv_def by metis
    next
      assume "state (tasks w ! t) = Pending \<and> state (tasks w' ! t) \<noteq> Pending"
      then show ?thesis using True by simp
    qed
  next
    case False
    then show ?thesis using that si oth[of i] unfolding settled_inv_def by metis
  qed
  show "t' < length (tasks w) \<and>
        (\<forall>x. canceler (tasks w ! t') = RootCanceler HookReturns x \<longrightarrow>
           state (tasks w ! t') = Pending \<and>
           state (tasks w' ! t') \<noteq> Pending \<and> count_list es (HookCalled t') = 1)"
    if "HookCalled t' \<in> set es" for t'
    using that hk by blast
qed

lemma executor_resolve_invariant:
  assumes inv: "invariant w" and t: "t < length (tasks w)" and root: "is_root w t"
  shows "invariant (executor_resolve t v w)"
proof (cases "state (tasks w ! t) \<noteq> Canceled")
  case False
  then show ?thesis using inv by (simp add: executor_resolve_def)
next
  case True
  note f = base_resolve_facts[OF t refl, where v=v]
  have e: "executor_resolve t v w = base_resolve t v w" using True by (simp add: executor_resolve_def)
  show ?thesis
    unfolding e
  proof (rule settle_invariant[OF inv t f(1) f(3) f(4) f(5) _ _ f(2)])
    show "tasks (base_resolve t v w) ! t = tasks w ! t \<or>
      state (tasks w ! t) = Pending \<and> state (tasks (base_resolve t v w) ! t) \<noteq> Pending"
      using f(6) f(7) by (cases "state (tasks w ! t) = Pending") simp_all
    show "state (tasks w ! p) \<noteq> Pending" if "canceler (tasks w ! t) = ThenCanceler p x" for p x
      using root that by (simp add: is_root_def)
    show "HookCalled x \<notin> set [BaseResolve t v]" for x by simp
  qed
qed

lemma executor_reject_invariant:
  assumes inv: "invariant w" and t: "t < length (tasks w)" and root: "is_root w t"
  shows "invariant (executor_reject t e w)"
proof (cases "state (tasks w ! t) \<noteq> Canceled")
  case False
  then show ?thesis using inv by (simp add: executor_reject_def)
next
  case True
  note f = base_reject_facts[OF t refl, where e=e]
  have e: "executor_reject t e w = base_reject t e w" using True by (simp add: executor_reject_def)
  show ?thesis
    unfolding e
  proof (rule settle_invariant[OF inv t f(1) f(3) f(4) f(5) _ _ f(2)])
    show "tasks (base_reject t e w) ! t = tasks w ! t \<or>
      state (tasks w ! t) = Pending \<and> state (tasks (base_reject t e w) ! t) \<noteq> Pending"
      using f(6) f(7) by (cases "state (tasks w ! t) = Pending") simp_all
    show "state (tasks w ! p) \<noteq> Pending" if "canceler (tasks w ! t) = ThenCanceler p x" for p x
      using root that by (simp add: is_root_def)
    show "HookCalled x \<notin> set [BaseReject t e]" for x by simp
  qed
qed

lemma call_handler_facts:
  assumes "call_handler h i t w = (w1, r)"
  shows "tasks w1 = tasks w"
    and "\<exists>es. log w1 = log w @ es \<and> (\<forall>e \<in> set es. handler_event t e)"
  using assms by (cases h; auto)+

lemma then_onFulfilled_facts:
  assumes "then_onFulfilled t v w = (w1, r)"
  shows "tasks w1 = tasks w"
    and "\<exists>es. log w1 = log w @ es \<and> (\<forall>e \<in> set es. handler_event t e)"
    and "state (tasks w ! t) = Canceled \<Longrightarrow> w1 = w \<and> r = Inr Undefined"
proof -
  show "state (tasks w ! t) = Canceled \<Longrightarrow> w1 = w \<and> r = Inr Undefined"
    using assms by (simp add: then_onFulfilled_def)
  show "tasks w1 = tasks w"
    using assms call_handler_facts(1)
    by (auto simp: then_onFulfilled_def split: if_splits option.splits)
  show "\<exists>es. log w1 = log w @ es \<and> (\<forall>e \<in> set es. handler_event t e)"
  proof (cases "state (tasks w ! t) \<noteq> Canceled \<and> onFulfilled (tasks w ! t) \<noteq> None")
    case True
    then obtain h where "onFulfilled (tasks w ! t) = Some h" by auto
    with True assms have "call_handler h (Inr v) t w = (w1, r)" by (simp add: then_onFulfilled_def)
    then show ?thesis by (rule call_handler_facts(2))
  next
    case False
    then have "w1 = w" using assms by (auto simp: then_onFulfilled_def split: if_splits option.splits)
    then show ?thesis by simp
  qed
qed

lemma then_onRejected_facts:
  assumes "then_onRejected t v w = (w1, r)"
  shows "tasks w1 = tasks w"
    and "\<exists>es. log w1 = log w @ es \<and> (\<forall>e \<in> set es. handler_event t e)"
    and "state (tasks w ! t) = Canceled \<Longrightarrow> w1 = w \<and> r = Inr Undefined"
proof -
  show "state (tasks w ! t) = Canceled \<Longrightarrow> w1 = w \<and> r = Inr Undefined"
    using assms by (simp add: then_onRejected_def)
  show "tasks w1 = tasks w"
    using assms call_handler_facts(1)
    by (auto simp: then_onRejected_def split: if_splits option.splits)
  show "\<exists>es. log w1 = log w @ es \<and> (\<forall>e \<in> set es. handler_event t e)"
  proof (cases "state (tasks w ! t) \<noteq> Canceled \<and> onRejected (tasks w ! t) \<noteq> None")
    case True
    then obtain h where "onRejected (tasks w ! t) = Some h" by auto
    with True assms have "call_handler h (Inl v) t w = (w1, r)" by (simp add: then_onRejected_def)
    then show ?thesis by (rule call_handler_facts(2))
  next
    case False
    then have "w1 = w" using assms by (auto simp: then_onRejected_def split: if_splits option.splits)
    then show ?thesis by simp
  qed
qed

lemma base_settle_facts:
  assumes t: "t < length (tasks w)" and w': "w' = base_settle t r w"
  shows "length (tasks w') = length (tasks w)"
    and "\<exists>e. log w' = log w @ [e] \<and> base_event t e"
    and "i \<noteq> t \<Longrightarrow> tasks w' ! i = tasks w ! i"
    and "canceler (tasks w' ! t) = canceler (tasks w ! t)"
    and "children (tasks w' ! t) = children (tasks w ! t)"
    and "state (tasks w ! t) = Pending \<Longrightarrow> state (tasks w' ! t) \<noteq> Pending"
    and "state (tasks w ! t) \<noteq> Pending \<Longrightarrow> tasks w' ! t = tasks w ! t"
  using t unfolding w'
  by (cases r; simp add: base_settle_def base_resolve_def base_reject_def Let_def)+

text \<open>What \<open>deliver\<close> does, when it does anything.\<close>

lemma deliver_cases:
  assumes t: "t < length (tasks w)"
  obtains (nothing) "deliver t w = w"
  | (settles) p x w1 r where "canceler (tasks w ! t) = ThenCanceler p x"
      "settled (tasks w ! p) \<noteq> None"
      "state (tasks w ! t) = Pending \<or> state (tasks w ! t) = Canceled"
      "tasks w1 = tasks w"
      "\<exists>es. log w1 = log w @ es \<and> (\<forall>e \<in> set es. handler_event t e)"
      "state (tasks w ! t) = Canceled \<Longrightarrow> w1 = w"
      "deliver t w = base_settle t r w1"
proof (cases "canceler (tasks w ! t)")
  case (RootCanceler h x)
  then have "deliver t w = w" by (simp add: deliver_def)
  then show ?thesis by (rule nothing)
next
  case (ThenCanceler p x)
  show ?thesis
  proof (cases "state (tasks w ! t) = Fulfilled \<or> state (tasks w ! t) = Rejected")
    case True
    then have "deliver t w = w" using ThenCanceler by (auto simp: deliver_def)
    then show ?thesis by (rule nothing)
  next
    case False
    then have st: "state (tasks w ! t) = Pending \<or> state (tasks w ! t) = Canceled"
      by (cases "state (tasks w ! t)") simp_all
    show ?thesis
    proof (cases "settled (tasks w ! p)")
      case None
      then have "deliver t w = w" using ThenCanceler False by (simp add: deliver_def)
      then show ?thesis by (rule nothing)
    next
      case (Some o1)
      show ?thesis
      proof (cases o1)
        case (Inl e)
        obtain w1 r where wr: "then_onRejected t e w = (w1, r)"
          by (cases "then_onRejected t e w")
        have d: "deliver t w = base_settle t r w1"
          using ThenCanceler False Some Inl wr by (simp add: deliver_def)
        show ?thesis
          by (rule settles[OF ThenCanceler _ st then_onRejected_facts(1,2)[OF wr] _ d])
             (use Some then_onRejected_facts(3)[OF wr] in auto)
      next
        case (Inr v)
        obtain w1 r where wr: "then_onFulfilled t v w = (w1, r)"
          by (cases "then_onFulfilled t v w")
        have d: "deliver t w = base_settle t r w1"
          using ThenCanceler False Some Inr wr by (simp add: deliver_def)
        show ?thesis
          by (rule settles[OF ThenCanceler _ st then_onFulfilled_facts(1,2)[OF wr] _ d])
             (use Some then_onFulfilled_facts(3)[OF wr] in auto)
      qed
    qed
  qed
qed

lemma deliver_invariant:
  assumes inv: "invariant w" and t: "t < length (tasks w)"
  shows "invariant (deliver t w)"
proof (rule deliver_cases[OF t])
  assume "deliver t w = w"
  then show ?thesis using inv by simp
next
  fix p x w1 r
  assume can: "canceler (tasks w ! t) = ThenCanceler p x"
    and sp: "settled (tasks w ! p) \<noteq> None"
    and t1: "tasks w1 = tasks w"
    and l1: "\<exists>es. log w1 = log w @ es \<and> (\<forall>e \<in> set es. handler_event t e)"
    and d: "deliver t w = base_settle t r w1"
  from inv have wf: "well_formed w" and si: "settled_inv w" by (simp_all add: invariant_def)
  have pl: "p < length (tasks w)" using well_formed_cancelerD(2)[OF wf t can] t by simp
  have pn: "state (tasks w ! p) \<noteq> Pending" using si sp pl unfolding settled_inv_def by blast
  have t': "t < length (tasks w1)" using t t1 by simp
  note f = base_settle_facts[OF t' refl, where r=r]
  from l1 obtain es1 where es1: "log w1 = log w @ es1" "\<forall>e \<in> set es1. handler_event t e" by blast
  from f(2) obtain e where e: "log (base_settle t r w1) = log w1 @ [e]" "base_event t e" by blast
  show ?thesis
    unfolding d
  proof (rule settle_invariant[OF inv t])
    show "length (tasks (base_settle t r w1)) = length (tasks w)" using f(1) t1 by simp
    show "tasks (base_settle t r w1) ! i = tasks w ! i" if "i \<noteq> t" for i
      using f(3)[OF that] t1 by simp
    show "canceler (tasks (base_settle t r w1) ! t) = canceler (tasks w ! t)" using f(4) t1 by simp
    show "children (tasks (base_settle t r w1) ! t) = children (tasks w ! t)" using f(5) t1 by simp
    show "tasks (base_settle t r w1) ! t = tasks w ! t \<or>
        state (tasks w ! t) = Pending \<and> state (tasks (base_settle t r w1) ! t) \<noteq> Pending"
      using f(6) f(7) t1 by (cases "state (tasks w ! t) = Pending") simp_all
    show "state (tasks w ! p') \<noteq> Pending" if "canceler (tasks w ! t) = ThenCanceler p' x'" for p' x'
      using that can pn by simp
    show "log (base_settle t r w1) = log w @ (es1 @ [e])" using es1 e by simp
    show "HookCalled y \<notin> set (es1 @ [e])" for y
      using es1(2) e(2) by auto
  qed
qed

lemma pending_descendants:
  assumes wf: "well_formed w" and pa: "pending_above w" and a: "state (tasks w ! a) = Pending"
  shows "descendant w a d \<Longrightarrow> state (tasks w ! d) = Pending"
proof (induction rule: descendant.induct)
  case self
  show ?case by (rule a)
next
  case (child p c)
  from well_formed_childD[OF wf child.hyps(2,3)]
  have "c < length (tasks w)" "canceler (tasks w ! c) = ThenCanceler p c" by simp_all
  then show ?case using pa child.IH unfolding pending_above_def by blast
qed

lemma origin_parent_not_pending:
  "well_formed w \<Longrightarrow> t < length (tasks w) \<Longrightarrow>
   canceler (tasks w ! origin w t) = ThenCanceler p x \<Longrightarrow> state (tasks w ! p) \<noteq> Pending"
proof (induction t rule: less_induct)
  case (less t)
  show ?case
  proof (cases "canceler (tasks w ! t)")
    case (RootCanceler h y)
    then have "escalation w t = [t]" unfolding escalation.simps[of w t] by simp
    then show ?thesis using less.prems(3) RootCanceler by (simp add: origin_def)
  next
    case (ThenCanceler q y)
    then have q: "q < t" using well_formed_cancelerD(2)[OF less.prems(1,2)] by simp
    show ?thesis
    proof (cases "state (tasks w ! q) = Pending")
      case True
      then have e: "escalation w t = t # escalation w q"
        using ThenCanceler q unfolding escalation.simps[of w t] by simp
      have o: "origin w t = origin w q" by (simp add: origin_def e)
      have ql: "q < length (tasks w)" using q less.prems(2) by simp
      show ?thesis using less.IH[OF q less.prems(1) ql] less.prems(3) unfolding o by simp
    next
      case False
      then have "escalation w t = [t]" using ThenCanceler unfolding escalation.simps[of w t] by simp
      then have "origin w t = t" by (simp add: origin_def)
      then show ?thesis using less.prems(3) ThenCanceler False by simp
    qed
  qed
qed

lemma descendant_parent:
  assumes wf: "well_formed w" and d: "descendant w a c" and ne: "c \<noteq> a"
    and can: "canceler (tasks w ! c) = ThenCanceler p x"
  shows "descendant w a p"
  using d
proof (cases rule: descendant.cases)
  case self
  then show ?thesis using ne by simp
next
  case (child q)
  from well_formed_childD(3)[OF wf child(2,3)] can have "q = p" by simp
  then show ?thesis using child(1) by simp
qed

lemma count_list_not_in: "x \<notin> set xs \<Longrightarrow> count_list xs x = 0"
  by (simp add: count_list_0_iff)

lemma cancel_invariant:
  assumes inv: "invariant w" and t: "t < length (tasks w)"
    and tc: "task_cancel t w = Some (w', r)"
  shows "invariant w'"
proof (cases "state (tasks w ! t) = Pending")
  case False
  then have "task_cancel t w = Some (w, Returned)" by (simp add: task_cancel_def fuel_Suc)
  then show ?thesis using tc inv by simp
next
  case True
  from inv have wf: "well_formed w" and pa: "pending_above w" and si: "settled_inv w"
    by (simp_all add: invariant_def)
  let ?a = "origin w t"
  have al: "?a < length (tasks w)" using origin_descendant[OF wf t] t by simp
  have ap: "state (tasks w ! ?a) = Pending" using origin_state[OF True] .
  show ?thesis
  proof (rule task_cancel_effect[OF wf t True])
    fix e
    assume can: "canceler (tasks w ! ?a) = RootCanceler (HookThrows e) ?a"
      and res: "task_cancel t w =
         Some (add_logs (map CancelerCalled (escalation w t) @ [HookCalled ?a]) w, Threw e)"
    have w': "w' = add_logs (map CancelerCalled (escalation w t) @ [HookCalled ?a]) w"
      using tc res by simp
    show ?thesis
    proof (rule moved_invariant[OF inv, where es = "map CancelerCalled (escalation w t) @ [HookCalled ?a]"])
      show "pending_above w'" using pa by (simp add: w' pending_above_def)
      show "x < length (tasks w) \<and>
         (\<forall>y. canceler (tasks w ! x) = RootCanceler HookReturns y \<longrightarrow>
              state (tasks w ! x) = Pending \<and> state (tasks w' ! x) \<noteq> Pending \<and>
              count_list (map CancelerCalled (escalation w t) @ [HookCalled ?a]) (HookCalled x) = 1)"
        if "HookCalled x \<in> set (map CancelerCalled (escalation w t) @ [HookCalled ?a])" for x
      proof -
        from that have "x = ?a" by auto
        then show ?thesis using al can by simp
      qed
      show "state (tasks w' ! i) \<noteq> Pending"
        if "i < length (tasks w)" "settled (tasks w' ! i) \<noteq> None" for i
        using that si unfolding settled_inv_def w' by simp
    qed (simp_all add: w')
  next
    fix w'' hs fs
    assume res: "task_cancel t w = Some (w'', Returned)"
      and lg: "log w'' = log w @ map CancelerCalled (escalation w t) @ hs @ fs"
      and hr: "\<And>x. canceler (tasks w ! ?a) = RootCanceler HookReturns x \<Longrightarrow> hs = [HookCalled ?a]"
      and hc: "\<And>p x. canceler (tasks w ! ?a) = ThenCanceler p x \<Longrightarrow> hs = []"
      and nt: "\<And>e x. canceler (tasks w ! ?a) \<noteq> RootCanceler (HookThrows e) x"
      and fs: "\<forall>e \<in> set fs. is_finally_event e"
      and sk: "map skel (tasks w'') = map skel (tasks w)"
      and st: "\<forall>i < length (tasks w).
         state (tasks w'' ! i) = (if descendant w ?a i then Canceled else state (tasks w ! i))"
    have w': "w'' = w'" using tc res by simp
    have nfs: "HookCalled x \<notin> set fs" for x using fs by auto
    have hs: "hs = [] \<or> (hs = [HookCalled ?a] \<and> (\<exists>x. canceler (tasks w ! ?a) = RootCanceler HookReturns x))"
    proof (cases "canceler (tasks w ! ?a)")
      case (RootCanceler h x)
      then show ?thesis using hr nt by (cases h) auto
    next
      case (ThenCanceler p x)
      then show ?thesis using hc by simp
    qed
    have mono: "state (tasks w'' ! i) = state (tasks w ! i)"
      if "i < length (tasks w)" "state (tasks w ! i) \<noteq> Pending" for i
      using st that pending_descendants[OF wf pa ap, of i] by auto
    show ?thesis
      unfolding w'[symmetric]
    proof (rule moved_invariant[OF inv, where es = "map CancelerCalled (escalation w t) @ hs @ fs"])
      show "length (tasks w'') = length (tasks w)" using same_skelD(1)[OF sk] .
      show "canceler (tasks w'' ! i) = canceler (tasks w ! i)" if "i < length (tasks w)" for i
        using same_skelD(3)[OF sk that] .
      show "children (tasks w'' ! i) = children (tasks w ! i)" if "i < length (tasks w)" for i
        using same_skelD(2)[OF sk that] .
      show "state (tasks w'' ! i) = state (tasks w ! i)"
        if "i < length (tasks w)" "state (tasks w ! i) \<noteq> Pending" for i
        using mono that .
      show "log w'' = log w @ map CancelerCalled (escalation w t) @ hs @ fs" by (rule lg)
      show "state (tasks w'' ! i) \<noteq> Pending"
        if "i < length (tasks w)" "settled (tasks w'' ! i) \<noteq> None" for i
      proof -
        have "settled (tasks w ! i) \<noteq> None" using that same_skelD(7)[OF sk that(1)] by simp
        then have "state (tasks w ! i) \<noteq> Pending" using si that(1) unfolding settled_inv_def by blast
        then show ?thesis using mono[OF that(1)] by simp
      qed
      show "pending_above w''"
        unfolding pending_above_def
      proof (intro allI impI)
        fix c p x assume c: "c < length (tasks w'')"
          and can: "canceler (tasks w'' ! c) = ThenCanceler p x"
          and pp: "state (tasks w'' ! p) = Pending"
        have cl: "c < length (tasks w)" using c same_skelD(1)[OF sk] by simp
        have can0: "canceler (tasks w ! c) = ThenCanceler p x"
          using can same_skelD(3)[OF sk cl] by simp
        have pl: "p < length (tasks w)" using well_formed_cancelerD(2)[OF wf cl can0] cl by simp
        have ndp: "\<not> descendant w ?a p" and p0: "state (tasks w ! p) = Pending"
          using st pl pp by (auto split: if_splits)
        have c0: "state (tasks w ! c) = Pending"
          using pa cl can0 p0 unfolding pending_above_def by blast
        have "\<not> descendant w ?a c"
        proof
          assume dc: "descendant w ?a c"
          show False
          proof (cases "c = ?a")
            case True
            then show ?thesis using origin_parent_not_pending[OF wf t, of p x] can0 p0 by simp
          next
            case False
            from descendant_parent[OF wf dc False can0] ndp show ?thesis by simp
          qed
        qed
        then show "state (tasks w'' ! c) = Pending" using st cl c0 by simp
      qed
      show "x < length (tasks w) \<and>
         (\<forall>y. canceler (tasks w ! x) = RootCanceler HookReturns y \<longrightarrow>
              state (tasks w ! x) = Pending \<and> state (tasks w'' ! x) \<noteq> Pending \<and>
              count_list (map CancelerCalled (escalation w t) @ hs @ fs) (HookCalled x) = 1)"
        if "HookCalled x \<in> set (map CancelerCalled (escalation w t) @ hs @ fs)" for x
      proof -
        from that nfs hs have x: "x = ?a" and h: "hs = [HookCalled ?a]" by auto
        have 1: "count_list (map CancelerCalled (escalation w t)) (HookCalled ?a) = 0"
          by (rule count_list_not_in) auto
        have 2: "count_list fs (HookCalled ?a) = 0"
          by (rule count_list_not_in) (rule nfs)
        have "state (tasks w'' ! ?a) = Canceled" using st al descendant.self[of w ?a] by simp
        then show ?thesis using x h 1 2 al ap by simp
      qed
    qed
  qed
qed

lemma invariant_init: "invariant init"
  by (simp add: invariant_def init_def well_formed_def pending_above_def settled_inv_def hook_inv_def)

lemma step_invariant:
  assumes inv: "invariant w"
  shows "\<exists>w'. step w x = Some w' \<and> invariant w'"
proof (cases x)
  case (New h)
  then show ?thesis using new_invariant[OF inv] by simp
next
  case (Then t onF onR)
  then show ?thesis using then_invariant[OF inv] inv by simp
next
  case (Finally t cb)
  then show ?thesis using finally_invariant[OF inv] inv by simp
next
  case (Cancel t)
  show ?thesis
  proof (cases "t < length (tasks w)")
    case True
    from inv have wf: "well_formed w" by (simp add: invariant_def)
    from task_cancel_returns[OF wf True] obtain w' r where tc: "task_cancel t w = Some (w', r)"
      by blast
    then show ?thesis using cancel_invariant[OF inv True tc] Cancel True by simp
  next
    case False
    then show ?thesis using Cancel inv by simp
  qed
next
  case (Resolve t v)
  then show ?thesis using executor_resolve_invariant[OF inv] inv by simp
next
  case (Reject t e)
  then show ?thesis using executor_reject_invariant[OF inv] inv by simp
next
  case (Deliver t)
  then show ?thesis using deliver_invariant[OF inv] inv by simp
qed

lemma run_invariant:
  "invariant w \<Longrightarrow> \<exists>w'. run w xs = Some w' \<and> invariant w'"
proof (induction xs arbitrary: w)
  case Nil
  then show ?case by simp
next
  case (Cons x xs)
  from step_invariant[OF Cons.prems, of x] obtain w1 where "step w x = Some w1" "invariant w1"
    by blast
  then show ?case using Cons.IH[of w1] by simp
qed

lemma run_append:
  "run w (xs @ ys) = (case run w xs of None \<Rightarrow> None | Some w' \<Rightarrow> run w' ys)"
  by (induction xs arbitrary: w) (auto split: option.splits)

lemma keeps_refl: "keeps w w"
  by (simp add: keeps_def)

lemma keeps_trans: "keeps w w1 \<Longrightarrow> keeps w1 w2 \<Longrightarrow> keeps w w2"
  unfolding keeps_def by (metis le_trans less_le_trans)

lemma task_cancel_keeps:
  assumes inv: "invariant w" and t: "t < length (tasks w)"
    and tc: "task_cancel t w = Some (w', r)"
  shows "keeps w w'"
proof (cases "state (tasks w ! t) = Pending")
  case False
  then have "task_cancel t w = Some (w, Returned)" by (simp add: task_cancel_def fuel_Suc)
  then show ?thesis using tc keeps_refl by simp
next
  case True
  from inv have wf: "well_formed w" and pa: "pending_above w" by (simp_all add: invariant_def)
  have ap: "state (tasks w ! origin w t) = Pending" using origin_state[OF True] .
  show ?thesis
  proof (rule task_cancel_effect[OF wf t True])
    fix e
    assume "task_cancel t w =
         Some (add_logs (map CancelerCalled (escalation w t) @ [HookCalled (origin w t)]) w, Threw e)"
    then show ?thesis using tc by (auto simp: keeps_def)
  next
    fix w'' hs fs
    assume res: "task_cancel t w = Some (w'', Returned)"
      and sk: "map skel (tasks w'') = map skel (tasks w)"
      and st: "\<forall>i < length (tasks w).
         state (tasks w'' ! i) = (if descendant w (origin w t) i then Canceled else state (tasks w ! i))"
    have w': "w'' = w'" using tc res by simp
    have "state (tasks w'' ! i) = state (tasks w ! i)"
      if "i < length (tasks w)" "state (tasks w ! i) \<noteq> Pending" for i
      using st that pending_descendants[OF wf pa ap, of i] by auto
    then show ?thesis
      unfolding w'[symmetric] keeps_def
      using same_skelD(1)[OF sk] same_skelD(3)[OF sk] by simp
  qed
qed

lemma settle_keeps:
  assumes len: "length (tasks w') = length (tasks w)"
    and oth: "\<And>i. i \<noteq> t \<Longrightarrow> tasks w' ! i = tasks w ! i"
    and cn: "canceler (tasks w' ! t) = canceler (tasks w ! t)"
    and mv: "state (tasks w ! t) \<noteq> Pending \<Longrightarrow> tasks w' ! t = tasks w ! t"
  shows "keeps w w'"
  unfolding keeps_def
proof (intro conjI allI impI)
  show "length (tasks w) \<le> length (tasks w')" using len by simp
  show "canceler (tasks w' ! i) = canceler (tasks w ! i)" for i
    using oth[of i] cn by (cases "i = t") simp_all
  show "state (tasks w' ! i) = state (tasks w ! i)" if "state (tasks w ! i) \<noteq> Pending" for i
    using oth[of i] mv that by (cases "i = t") simp_all
qed

lemma deliver_keeps:
  assumes t: "t < length (tasks w)"
  shows "keeps w (deliver t w)"
proof (rule deliver_cases[OF t])
  assume "deliver t w = w"
  then show ?thesis by (simp add: keeps_refl)
next
  fix p x w1 r
  assume t1: "tasks w1 = tasks w" and d: "deliver t w = base_settle t r w1"
  have t': "t < length (tasks w1)" using t t1 by simp
  note f = base_settle_facts[OF t' refl, where r=r]
  show ?thesis unfolding d
    by (rule settle_keeps[where t=t]) (use f t1 in simp_all)
qed

lemma step_keeps:
  assumes inv: "invariant w" and s: "step w x = Some w'"
  shows "keeps w w'"
proof (cases x)
  case (New h)
  then have "w' = fst (new_task h w)" using s by simp
  from new_task_facts[OF this] show ?thesis by (simp add: keeps_def)
next
  case (Then t onF onR)
  show ?thesis
  proof (cases "t < length (tasks w)")
    case True
    then have "w' = fst (task_then t onF onR w)" using s Then by simp
    from task_then_facts[OF this True] show ?thesis
      unfolding keeps_def by (metis le_SucI order_refl task.select_convs(1,2) task.surjective task.update_convs(3))
  next
    case False
    then show ?thesis using s Then keeps_refl by simp
  qed
next
  case (Finally t cb)
  show ?thesis
  proof (cases "t < length (tasks w)")
    case True
    then have "w' = fst (finally_task t cb w)" using s Finally by simp
    from finally_task_facts[OF this True] show ?thesis
      unfolding keeps_def by (metis le_SucI order_refl task.select_convs(1,2) task.surjective task.update_convs(3))
  next
    case False
    then show ?thesis using s Finally keeps_refl by simp
  qed
next
  case (Cancel t)
  show ?thesis
  proof (cases "t < length (tasks w)")
    case True
    then obtain r where "task_cancel t w = Some (w', r)" using s Cancel by auto
    then show ?thesis using task_cancel_keeps[OF inv True] by simp
  next
    case False
    then show ?thesis using s Cancel keeps_refl by simp
  qed
next
  case (Resolve t v)
  show ?thesis
  proof (cases "t < length (tasks w) \<and> is_root w t \<and> state (tasks w ! t) \<noteq> Canceled")
    case True
    then have w': "w' = base_resolve t v w" using s Resolve by (simp add: executor_resolve_def)
    from True have t: "t < length (tasks w)" by simp
    note f = base_resolve_facts[OF t w']
    show ?thesis by (rule settle_keeps[where t=t]) (use f in simp_all)
  next
    case False
    then have "w' = w" using s Resolve by (auto simp: executor_resolve_def split: if_splits)
    then show ?thesis by (simp add: keeps_refl)
  qed
next
  case (Reject t e)
  show ?thesis
  proof (cases "t < length (tasks w) \<and> is_root w t \<and> state (tasks w ! t) \<noteq> Canceled")
    case True
    then have w': "w' = base_reject t e w" using s Reject by (simp add: executor_reject_def)
    from True have t: "t < length (tasks w)" by simp
    note f = base_reject_facts[OF t w']
    show ?thesis by (rule settle_keeps[where t=t]) (use f in simp_all)
  next
    case False
    then have "w' = w" using s Reject by (auto simp: executor_reject_def split: if_splits)
    then show ?thesis by (simp add: keeps_refl)
  qed
next
  case (Deliver t)
  then show ?thesis using s deliver_keeps keeps_refl by (auto split: if_splits)
qed

lemma run_keeps:
  "invariant w \<Longrightarrow> run w xs = Some w' \<Longrightarrow> keeps w w' \<and> invariant w'"
proof (induction xs arbitrary: w)
  case Nil
  then show ?case by (simp add: keeps_refl)
next
  case (Cons x xs)
  from Cons.prems(2) obtain w1 where s: "step w x = Some w1" and r: "run w1 xs = Some w'"
    by (auto split: option.splits)
  from step_invariant[OF Cons.prems(1), of x] s have i1: "invariant w1" by simp
  from step_keeps[OF Cons.prems(1) s] Cons.IH[OF i1 r] show ?case
    using keeps_trans by blast
qed

lemma is_root_keeps:
  "keeps w w' \<Longrightarrow> t < length (tasks w) \<Longrightarrow> is_root w' t = is_root w t"
  by (simp add: keeps_def is_root_def)

lemma finally_event_not_base: "is_finally_event e \<Longrightarrow> \<not> base_event t e"
  by (cases e) simp_all

lemma step_canceled_quiet:
  assumes inv: "invariant w" and t: "t < length (tasks w)"
    and can: "state (tasks w ! t) = Canceled" and s: "step w x = Some w'"
  shows "\<exists>es. log w' = log w @ es \<and> HandlerCalled t \<notin> set es \<and>
           (is_root w t \<longrightarrow> (\<forall>e \<in> set es. \<not> base_event t e))"
proof (cases x)
  case (New h)
  then have "w' = fst (new_task h w)" using s by simp
  from new_task_facts(2)[OF this] show ?thesis by simp
next
  case (Then c onF onR)
  show ?thesis
  proof (cases "c < length (tasks w)")
    case True
    then have "w' = fst (task_then c onF onR w)" using s Then by simp
    from task_then_facts(2)[OF this True] show ?thesis by simp
  next
    case False
    then show ?thesis using s Then by simp
  qed
next
  case (Finally c cb)
  show ?thesis
  proof (cases "c < length (tasks w)")
    case True
    then have "w' = fst (finally_task c cb w)" using s Finally by simp
    from finally_task_facts(2)[OF this True] show ?thesis by simp
  next
    case False
    then show ?thesis using s Finally by simp
  qed
next
  case (Cancel c)
  from inv have wf: "well_formed w" by (simp add: invariant_def)
  show ?thesis
  proof (cases "c < length (tasks w) \<and> state (tasks w ! c) = Pending")
    case False
    then have "w' = w" using s Cancel by (auto simp: task_cancel_def fuel_Suc split: if_splits)
    then show ?thesis by simp
  next
    case True
    then have c: "c < length (tasks w)" and cp: "state (tasks w ! c) = Pending" by simp_all
    from s Cancel c obtain r where tc: "task_cancel c w = Some (w', r)" by auto
    show ?thesis
    proof (rule task_cancel_effect[OF wf c cp])
      fix e
      assume "task_cancel c w =
         Some (add_logs (map CancelerCalled (escalation w c) @ [HookCalled (origin w c)]) w, Threw e)"
      then have "log w' = log w @ (map CancelerCalled (escalation w c) @ [HookCalled (origin w c)])"
        using tc by auto
      moreover have "HandlerCalled t \<notin> set (map CancelerCalled (escalation w c) @ [HookCalled (origin w c)])"
        by auto
      moreover have "\<forall>e \<in> set (map CancelerCalled (escalation w c) @ [HookCalled (origin w c)]).
          \<not> base_event t e" by auto
      ultimately show ?thesis by blast
    next
      fix w'' hs fs
      assume res: "task_cancel c w = Some (w'', Returned)"
        and lg: "log w'' = log w @ map CancelerCalled (escalation w c) @ hs @ fs"
        and hs: "set hs \<subseteq> {HookCalled (origin w c)}"
        and fs: "\<forall>e \<in> set fs. is_finally_event e"
      have "log w' = log w @ (map CancelerCalled (escalation w c) @ hs @ fs)"
        using tc res lg by simp
      moreover have "HandlerCalled t \<notin> set (map CancelerCalled (escalation w c) @ hs @ fs)"
        using hs fs by auto
      moreover have "\<forall>e \<in> set (map CancelerCalled (escalation w c) @ hs @ fs). \<not> base_event t e"
        using hs fs finally_event_not_base by auto
      ultimately show ?thesis by blast
    qed
  qed
next
  case (Resolve c v)
  show ?thesis
  proof (cases "c < length (tasks w) \<and> is_root w c \<and> state (tasks w ! c) \<noteq> Canceled")
    case True
    then have w': "w' = base_resolve c v w" using s Resolve by (simp add: executor_resolve_def)
    from True have c: "c < length (tasks w)" and "c \<noteq> t" using can by auto
    then show ?thesis using base_resolve_facts(2)[OF c w'] by simp
  next
    case False
    then have "w' = w" using s Resolve by (auto simp: executor_resolve_def split: if_splits)
    then show ?thesis by simp
  qed
next
  case (Reject c e)
  show ?thesis
  proof (cases "c < length (tasks w) \<and> is_root w c \<and> state (tasks w ! c) \<noteq> Canceled")
    case True
    then have w': "w' = base_reject c e w" using s Reject by (simp add: executor_reject_def)
    from True have c: "c < length (tasks w)" and "c \<noteq> t" using can by auto
    then show ?thesis using base_reject_facts(2)[OF c w'] by simp
  next
    case False
    then have "w' = w" using s Reject by (auto simp: executor_reject_def split: if_splits)
    then show ?thesis by simp
  qed
next
  case (Deliver c)
  show ?thesis
  proof (cases "c < length (tasks w)")
    case False
    then show ?thesis using s Deliver by simp
  next
    case True
    then have w': "w' = deliver c w" using s Deliver by simp
    show ?thesis
    proof (rule deliver_cases[OF True])
      assume "deliver c w = w"
      then show ?thesis using w' by simp
    next
      fix p y w1 r
      assume cn: "canceler (tasks w ! c) = ThenCanceler p y"
        and t1: "tasks w1 = tasks w"
        and l1: "\<exists>es. log w1 = log w @ es \<and> (\<forall>e \<in> set es. handler_event c e)"
        and q: "state (tasks w ! c) = Canceled \<Longrightarrow> w1 = w"
        and d: "deliver c w = base_settle c r w1"
      have c1: "c < length (tasks w1)" using True t1 by simp
      from l1 obtain es1 where es1: "log w1 = log w @ es1" "\<forall>e \<in> set es1. handler_event c e"
        by blast
      from base_settle_facts(2)[OF c1 refl, where r=r] obtain e
        where e: "log (base_settle c r w1) = log w1 @ [e]" "base_event c e" by blast
      have lg: "log w' = log w @ (es1 @ [e])" using w' d es1 e by simp
      have e1: "es1 = []" if "c = t" using q can that es1(1) by simp
      have h: "HandlerCalled t \<notin> set (es1 @ [e])"
      proof (cases "c = t")
        case True
        then show ?thesis using e1 e(2) by (cases e) auto
      next
        case False
        have "handler_event c (HandlerCalled t) = False" using False by simp
        then show ?thesis using es1(2) e(2) by (cases e) auto
      qed
      have b: "is_root w t \<longrightarrow> (\<forall>e' \<in> set (es1 @ [e]). \<not> base_event t e')"
      proof (cases "c = t")
        case True
        then show ?thesis using cn by (simp add: is_root_def)
      next
        case False
        have 1: "\<not> base_event t e'" if "handler_event c e'" for e'
          using that by (cases e') auto
        have 2: "\<not> base_event t e" using e(2) False by (cases e) auto
        show ?thesis using 1 2 es1(2) by auto
      qed
      from lg h b show ?thesis by blast
    qed
  qed
qed

lemma run_canceled_quiet:
  "invariant w \<Longrightarrow> t < length (tasks w) \<Longrightarrow> state (tasks w ! t) = Canceled \<Longrightarrow>
   run w xs = Some w' \<Longrightarrow>
   \<exists>es. log w' = log w @ es \<and> HandlerCalled t \<notin> set es \<and>
        (is_root w t \<longrightarrow> (\<forall>e \<in> set es. \<not> base_event t e))"
proof (induction xs arbitrary: w)
  case Nil
  then show ?case by simp
next
  case (Cons x xs)
  from Cons.prems(4) obtain w1 where s: "step w x = Some w1" and r: "run w1 xs = Some w'"
    by (auto split: option.splits)
  from step_invariant[OF Cons.prems(1), of x] s have i1: "invariant w1" by simp
  note k = step_keeps[OF Cons.prems(1) s]
  have t1: "t < length (tasks w1)" using k Cons.prems(2) by (simp add: keeps_def)
  have c1: "state (tasks w1 ! t) = Canceled" using k Cons.prems(2,3) by (simp add: keeps_def)
  from step_canceled_quiet[OF Cons.prems(1,2,3) s] obtain es1 where
    1: "log w1 = log w @ es1" "HandlerCalled t \<notin> set es1"
      "is_root w t \<longrightarrow> (\<forall>e \<in> set es1. \<not> base_event t e)" by blast
  from Cons.IH[OF i1 t1 c1 r] obtain es2 where
    2: "log w' = log w1 @ es2" "HandlerCalled t \<notin> set es2"
      "is_root w1 t \<longrightarrow> (\<forall>e \<in> set es2. \<not> base_event t e)" by blast
  have "log w' = log w @ (es1 @ es2)" using 1 2 by simp
  moreover have "HandlerCalled t \<notin> set (es1 @ es2)" using 1 2 by simp
  moreover have "is_root w t \<longrightarrow> (\<forall>e \<in> set (es1 @ es2). \<not> base_event t e)"
    using 1 2 is_root_keeps[OF k Cons.prems(2)] by auto
  ultimately show ?case by blast
qed

lemma run_init_invariant: "run init ops = Some w \<Longrightarrow> invariant w"
  using run_keeps[OF invariant_init] by blast


subsection \<open>The finally callbacks of a canceled subtree\<close>

lemma incoming_self [simp]: "incoming w a ft a = ft"
  unfolding incoming.simps[of w a ft a] by simp

lemma incoming_child:
  assumes wf: "well_formed w" and p: "p < length (tasks w)"
    and c: "c \<in> set (children (tasks w ! p))" and ne: "c \<noteq> a"
  shows "incoming w a ft c = handed_down w p (incoming w a ft p)"
  unfolding incoming.simps[of w a ft c]
  using well_formed_childD(1,3)[OF wf p c] ne by simp

lemma incoming_reroot:
  assumes wf: "well_formed w" and t: "t < length (tasks w)"
    and c: "c \<in> set (children (tasks w ! t))"
  shows "descendant w c d \<Longrightarrow> incoming w t ft d = incoming w c (handed_down w t ft) d"
proof (induction rule: descendant.induct)
  case self
  have "c \<noteq> t" using well_formed_childD(1)[OF wf t c] by simp
  then show ?case using incoming_child[OF wf t c, of t ft] by simp
next
  case (child p e)
  have tc: "t < c" using well_formed_childD(1)[OF wf t c] .
  have "c \<le> p" using descendant_ge[OF wf child.hyps(1)] .
  moreover have "p < e" using well_formed_childD(1)[OF wf child.hyps(2,3)] .
  ultimately have ne: "e \<noteq> t" "e \<noteq> c" using tc by simp_all
  show ?case
    using incoming_child[OF wf child.hyps(2,3) ne(1), of ft]
      incoming_child[OF wf child.hyps(2,3) ne(2), of "handed_down w t ft"] child.IH
    by simp
qed

lemma visit_all_concat: "visit_all n w cs = concat (map (visit n w) cs)"
  by (induction cs) simp_all

lemma concat_visit_all:
  "concat (map (\<lambda>c. concat (map g (visit n w c))) cs) = concat (map g (visit_all n w cs))"
  by (induction cs) simp_all

lemma visit_descendant:
  assumes wf: "well_formed w"
  shows "a < length (tasks w) \<Longrightarrow> d \<in> set (visit n w a) \<Longrightarrow> descendant w a d"
proof (induction n arbitrary: a d)
  case 0
  then show ?case by simp
next
  case (Suc n)
  show ?case
  proof (cases "d = a")
    case True
    then show ?thesis by (simp add: descendant.self)
  next
    case False
    with Suc.prems(2) obtain c where c: "c \<in> set (children (tasks w ! a))"
      and d: "d \<in> set (visit n w c)"
      by (auto simp: visit_all_concat)
    have cl: "c < length (tasks w)" using well_formed_childD(2)[OF wf Suc.prems(1) c] .
    from Suc.IH[OF cl d] have "descendant w c d" .
    then show ?thesis using descendant_unfold[of w a d] Suc.prems(1) c by blast
  qed
qed

lemma finally_block_result:
  assumes t: "t < length (tasks w)" and sk: "map skel (tasks w) = map skel (tasks w0)"
    and st: "state (tasks w ! t) = Canceled"
  shows "finally_block ft t w =
           (handed_down w0 t ft, add_logs (events_at w0 t ft t) w)"
proof -
  have tf: "task_finally (tasks w ! t) = task_finally (tasks w0 ! t)"
    using same_skelD(4)[OF sk] t same_skelD(1)[OF sk] by simp
  show ?thesis
    using tf st
    by (auto simp: finally_block_def handed_down_def events_at_def add_log_conv split: option.splits)
qed

lemma p_cancel_log_visit:
  "well_formed w0 \<Longrightarrow> map skel (tasks w) = map skel (tasks w0) \<Longrightarrow> a < length (tasks w0) \<Longrightarrow>
   p_cancel n ft a w = Some w' \<Longrightarrow>
   log w' = log w @ concat (map (events_at w0 a ft) (visit n w0 a))"
  "well_formed w0 \<Longrightarrow> map skel (tasks w) = map skel (tasks w0) \<Longrightarrow>
   \<forall>c \<in> set cs. c < length (tasks w0) \<Longrightarrow>
   forEach_p_cancel n ft cs w = Some w' \<Longrightarrow>
   log w' = log w @ concat (map (\<lambda>c. concat (map (events_at w0 c ft) (visit n w0 c))) cs)"
proof (induction n ft a w and n ft cs w arbitrary: w' and w' rule: p_cancel_forEach_p_cancel.induct)
  case (1 finallyTask this w)
  then show ?case by simp
next
  case (2 n ft this w)
  note wf = "2.prems"(1) and sk = "2.prems"(2) and a = "2.prems"(3)
  let ?w1 = "set_state this Canceled w"
  have len: "length (tasks w) = length (tasks w0)" using same_skelD(1)[OF sk] .
  have sk1: "map skel (tasks ?w1) = map skel (tasks w0)" using sk by (simp add: skel_set_state)
  have st1: "state (tasks ?w1 ! this) = Canceled" using a len by (simp add: state_set_state)
  have a1: "this < length (tasks ?w1)" using a len by simp
  let ?ft' = "handed_down w0 this ft"
  let ?w2 = "add_logs (events_at w0 this ft this) ?w1"
  have fb: "finally_block ft this ?w1 = (?ft', ?w2)"
    using finally_block_result[OF a1 sk1 st1] .
  have sk2: "map skel (tasks ?w2) = map skel (tasks w0)" using sk1 by simp
  have ch: "children (tasks ?w2 ! this) = children (tasks w0 ! this)"
    using same_skelD(2)[OF sk2[symmetric]] a same_skelD(1)[OF sk2] by simp
  have inr: "\<forall>c \<in> set (children (tasks ?w2 ! this)). c < length (tasks w0)"
    unfolding ch using well_formed_childD(2)[OF wf a] by blast
  from "2.prems"(4) fb have run: "forEach_p_cancel n ?ft' (children (tasks ?w2 ! this)) ?w2 = Some w'"
    by simp
  from "2.IH"[OF refl fb[symmetric] refl wf sk2 inr run]
  have ih: "log w' = log ?w2 @
      concat (map (\<lambda>c. concat (map (events_at w0 c ?ft') (visit n w0 c))) (children (tasks w0 ! this)))"
    unfolding ch .
  have ev: "map (events_at w0 c ?ft') (visit n w0 c) = map (events_at w0 this ft) (visit n w0 c)"
    if c: "c \<in> set (children (tasks w0 ! this))" for c
  proof (rule map_cong[OF refl])
    fix d assume "d \<in> set (visit n w0 c)"
    then have "descendant w0 c d"
      using visit_descendant[OF wf well_formed_childD(2)[OF wf a c]] by blast
    from incoming_reroot[OF wf a c this, of ft]
    have "incoming w0 c ?ft' d = incoming w0 this ft d" by simp
    then show "events_at w0 c ?ft' d = events_at w0 this ft d" by (simp only: events_at_def)
  qed
  have "concat (map (\<lambda>c. concat (map (events_at w0 c ?ft') (visit n w0 c))) (children (tasks w0 ! this)))
      = concat (map (\<lambda>c. concat (map (events_at w0 this ft) (visit n w0 c))) (children (tasks w0 ! this)))"
    using ev by (auto intro!: arg_cong[where f=concat] map_cong)
  also have "\<dots> = concat (map (events_at w0 this ft) (visit_all n w0 (children (tasks w0 ! this))))"
    by (rule concat_visit_all)
  finally show ?case using ih by simp
next
  case (3 n finallyTask w)
  then show ?case by simp
next
  case (4 n ft child rest w)
  from "4.prems"(4) obtain w1 where a: "p_cancel n ft child w = Some w1"
    and b: "forEach_p_cancel n ft rest w1 = Some w'"
    by (auto split: option.splits)
  have c: "child < length (tasks w0)" and r: "\<forall>c \<in> set rest. c < length (tasks w0)"
    using "4.prems"(3) by simp_all
  have sk1: "map skel (tasks w1) = map skel (tasks w0)"
    using p_cancel_skel(1)[OF a] "4.prems"(2) by simp
  from "4.IH"(1)[OF "4.prems"(1,2) c a] "4.IH"(2)[OF a "4.prems"(1) sk1 r b]
  show ?case by simp
qed

lemma visit_complete:
  assumes wf: "well_formed w"
  shows "a < length (tasks w) \<Longrightarrow> length (tasks w) \<le> n + a \<Longrightarrow> descendant w a d \<Longrightarrow>
         d \<in> set (visit n w a)"
proof (induction n arbitrary: a)
  case 0
  then show ?case by simp
next
  case (Suc n)
  show ?case
  proof (cases "d = a")
    case True
    then show ?thesis by simp
  next
    case False
    with Suc.prems(3) obtain c where c: "c \<in> set (children (tasks w ! a))"
      and d: "descendant w c d"
      using descendant_unfold[of w a d] by blast
    from well_formed_childD(1,2)[OF wf Suc.prems(1) c] Suc.prems(2)
    have "c < length (tasks w)" "length (tasks w) \<le> n + c" by simp_all
    from Suc.IH[OF this d] c show ?thesis by (auto simp: visit_all_concat)
  qed
qed

lemma ancestors_chain:
  assumes wf: "well_formed w"
  shows "descendant w a d \<Longrightarrow> descendant w b d \<Longrightarrow> descendant w a b \<or> descendant w b a"
proof (induction arbitrary: b rule: descendant.induct)
  case self
  then show ?case by simp
next
  case (child p c)
  show ?case
  proof (cases "b = c")
    case True
    then show ?thesis using descendant.child[OF child.hyps(1,2,3)] by simp
  next
    case False
    from well_formed_childD(3)[OF wf child.hyps(2,3)]
    have "canceler (tasks w ! c) = ThenCanceler p c" .
    from descendant_parent[OF wf child.prems _ this] False have "descendant w b p" by simp
    then show ?thesis using child.IH by simp
  qed
qed

lemma siblings_disjoint:
  assumes wf: "well_formed w" and t: "t < length (tasks w)"
    and c1: "c1 \<in> set (children (tasks w ! t))" and c2: "c2 \<in> set (children (tasks w ! t))"
    and ne: "c1 \<noteq> c2" and d1: "descendant w c1 d" and d2: "descendant w c2 d"
  shows False
proof -
  have up: False if "descendant w x y" "x \<noteq> y" "x \<in> set (children (tasks w ! t))"
    "y \<in> set (children (tasks w ! t))" for x y
  proof -
    from well_formed_childD(3)[OF wf t that(4)]
    have "canceler (tasks w ! y) = ThenCanceler t y" .
    from descendant_parent[OF wf that(1) _ this] that(2) have "descendant w x t" by simp
    then have "x \<le> t" using descendant_ge[OF wf] by simp
    then show False using well_formed_childD(1)[OF wf t that(3)] by simp
  qed
  from ancestors_chain[OF wf d1 d2] show False
    using up[of c1 c2] up[of c2 c1] c1 c2 ne by blast
qed

lemma visit_distinct:
  assumes wf: "well_formed w"
  shows "a < length (tasks w) \<Longrightarrow> distinct (visit n w a)"
proof (induction n arbitrary: a)
  case 0
  then show ?case by simp
next
  case (Suc n)
  let ?cs = "children (tasks w ! a)"
  have sub: "set cs \<subseteq> set ?cs \<Longrightarrow> distinct cs \<Longrightarrow> distinct (visit_all n w cs)" for cs
  proof (induction cs)
    case Nil
    then show ?case by simp
  next
    case (Cons c cs)
    then have c: "c \<in> set ?cs" by simp
    have cl: "c < length (tasks w)" using well_formed_childD(2)[OF wf Suc.prems c] .
    have "set (visit n w c) \<inter> set (visit_all n w cs) = {}"
    proof (rule ccontr)
      assume "set (visit n w c) \<inter> set (visit_all n w cs) \<noteq> {}"
      then obtain d c' where d: "d \<in> set (visit n w c)" and c': "c' \<in> set cs"
        and d': "d \<in> set (visit n w c')" by (auto simp: visit_all_concat)
      have c'c: "c' \<in> set ?cs" "c' \<noteq> c" using Cons.prems c' by auto
      have "descendant w c d" using visit_descendant[OF wf cl d] .
      moreover have "descendant w c' d"
        using visit_descendant[OF wf well_formed_childD(2)[OF wf Suc.prems c'c(1)] d'] .
      ultimately show False using siblings_disjoint[OF wf Suc.prems c c'c(1)] c'c(2) by blast
    qed
    then show ?case using Cons Suc.IH[OF cl] by simp
  qed
  have "a \<notin> set (visit_all n w ?cs)"
  proof
    assume "a \<in> set (visit_all n w ?cs)"
    then obtain c where c: "c \<in> set ?cs" and a: "a \<in> set (visit n w c)"
      by (auto simp: visit_all_concat)
    from visit_descendant[OF wf well_formed_childD(2)[OF wf Suc.prems c] a]
    have "c \<le> a" using descendant_ge[OF wf] by simp
    then show False using well_formed_childD(1)[OF wf Suc.prems c] by simp
  qed
  moreover have "distinct ?cs" using wf Suc.prems unfolding well_formed_def by blast
  ultimately show ?case using sub[of ?cs] by simp
qed

lemma visit_order:
  assumes wf: "well_formed w"
  shows "a < length (tasks w) \<Longrightarrow> length (tasks w) \<le> n + a \<Longrightarrow>
         descendant w a p \<Longrightarrow> descendant w p d \<Longrightarrow> p \<noteq> d \<Longrightarrow>
         \<exists>l1 l2 l3. visit n w a = l1 @ p # l2 @ d # l3"
proof (induction n arbitrary: a)
  case 0
  then show ?case by simp
next
  case (Suc n)
  let ?cs = "children (tasks w ! a)"
  show ?case
  proof (cases "p = a")
    case True
    have "descendant w a d" using Suc.prems(4) True by simp
    from visit_complete[OF wf Suc.prems(1,2) this] Suc.prems(5) True
    have "d \<in> set (visit_all n w ?cs)" by simp
    then obtain l2 l3 where "visit_all n w ?cs = l2 @ d # l3" by (auto dest: split_list)
    then have "visit (Suc n) w a = [] @ p # l2 @ d # l3" using True by simp
    then show ?thesis by blast
  next
    case False
    with Suc.prems(3) obtain c where c: "c \<in> set ?cs" and cp: "descendant w c p"
      using descendant_unfold[of w a p] by blast
    from well_formed_childD(1,2)[OF wf Suc.prems(1) c] Suc.prems(2)
    have cl: "c < length (tasks w)" "length (tasks w) \<le> n + c" by simp_all
    from Suc.IH[OF cl cp Suc.prems(4,5)] obtain l1 l2 l3
      where v: "visit n w c = l1 @ p # l2 @ d # l3" by blast
    from c obtain xs ys where "?cs = xs @ c # ys" by (auto dest: split_list)
    then have "visit_all n w ?cs = visit_all n w xs @ visit n w c @ visit_all n w ys"
      by (simp add: visit_all_concat)
    then have "visit (Suc n) w a = (a # visit_all n w xs @ l1) @ p # l2 @ d # (l3 @ visit_all n w ys)"
      using v by simp
    then show ?thesis by blast
  qed
qed

lemma chained_on_refl [simp]: "chained_on th th"
  by (cases th) simp_all


lemma handed_down_None:
  "task_finally (tasks w ! p) = None \<Longrightarrow> handed_down w p x = x"
  by (simp add: handed_down_def finally_block_def)




lemma incoming_skips:
  assumes wf: "well_formed w" and ac: "descendant w a c"
  shows "descendant w c d \<Longrightarrow>
     (\<And>q. descendant w c q \<Longrightarrow> descendant w q d \<Longrightarrow> q \<noteq> d \<Longrightarrow>
           task_finally (tasks w ! q) = None) \<Longrightarrow>
     incoming w a ft d = incoming w a ft c"
proof (induction rule: descendant.induct)
  case self
  show ?case by simp
next
  case (child p e)
  have "a \<le> c" using descendant_ge[OF wf ac] .
  moreover have "c \<le> p" using descendant_ge[OF wf child.hyps(1)] .
  moreover have pe: "p < e" using well_formed_childD(1)[OF wf child.hyps(2,3)] .
  ultimately have ne: "e \<noteq> a" by simp
  have pe': "descendant w p e" using descendant.child[OF descendant.self child.hyps(2,3)] .
  have none: "task_finally (tasks w ! p) = None"
    using child.prems[OF child.hyps(1) pe'] pe by simp
  have "incoming w a ft p = incoming w a ft c"
  proof (rule child.IH)
    fix q assume q: "descendant w c q" "descendant w q p" "q \<noteq> p"
    have "descendant w q e" using descendant.child[OF q(2) child.hyps(2,3)] .
    moreover have "q \<noteq> e" using descendant_ge[OF wf q(2)] pe by simp
    ultimately show "task_finally (tasks w ! q) = None" using child.prems q(1) by blast
  qed
  then show ?case
    using incoming_child[OF wf child.hyps(2,3) ne, of ft] handed_down_None[OF none] by simp
qed

lemma events_at_about:
  "e \<in> set (events_at w a ft x) \<Longrightarrow> about_finally y e = (y = x)"
  by (auto simp: events_at_def split: option.splits if_splits)

lemma filter_events_at:
  "filter (about_finally d) (events_at w a ft x) = (if x = d then events_at w a ft x else [])"
  by (auto simp: events_at_def split: option.splits)

lemma filter_events_visit:
  "distinct V \<Longrightarrow>
   filter (about_finally d) (concat (map (events_at w a ft) V)) =
     (if d \<in> set V then events_at w a ft d else [])"
proof (induction V)
  case Nil
  then show ?case by simp
next
  case (Cons x V)
  then show ?case by (auto simp: filter_events_at)
qed

lemma events_at_finally: "e \<in> set (events_at w a ft x) \<Longrightarrow> is_finally_event e"
  by (auto simp: events_at_def split: option.splits if_splits)

text \<open>
  The whole effect of \<open>_cancel\<close> on a Task of a well-formed store. The store \<open>w\<close> has
  the Tasks of \<open>w0\<close>, in which the effect is described.
\<close>

lemma p_cancel_effect:
  assumes wf: "well_formed w0" and tk: "tasks w = tasks w0" and a: "a < length (tasks w0)"
  obtains w' es where
    "p_cancel (length (tasks w0)) ft a w = Some w'"
    "log w' = log w @ es"
    "map skel (tasks w') = map skel (tasks w0)"
    "\<And>i. i < length (tasks w0) \<Longrightarrow>
        state (tasks w' ! i) = (if descendant w0 a i then Canceled else state (tasks w0 ! i))"
    "\<And>d. descendant w0 a d \<Longrightarrow> filter (about_finally d) es = events_at w0 a ft d"
    "\<And>d. \<not> descendant w0 a d \<Longrightarrow> filter (about_finally d) es = []"
    "\<And>e. e \<in> set es \<Longrightarrow> is_finally_event e"
    "\<And>p d. descendant w0 a p \<Longrightarrow> descendant w0 p d \<Longrightarrow> p \<noteq> d \<Longrightarrow>
        \<exists>A B C. es = A @ events_at w0 a ft p @ B @ events_at w0 a ft d @ C"
proof -
  let ?L = "length (tasks w0)"
  let ?V = "visit ?L w0 a"
  let ?es = "concat (map (events_at w0 a ft) ?V)"
  have wfw: "well_formed w" using wf well_formed_tasks[OF tk] by simp
  have sk: "map skel (tasks w) = map skel (tasks w0)" using tk by simp
  from p_cancel_returns(1)[OF wfw, of a ?L ft] a tk
  obtain w' where run: "p_cancel ?L ft a w = Some w'" by auto
  have lg: "log w' = log w @ ?es" using p_cancel_log_visit(1)[OF wf sk a run] .
  have dist: "distinct ?V" using visit_distinct[OF wf a] .
  have mem: "d \<in> set ?V \<longleftrightarrow> descendant w0 a d" for d
    using visit_complete[OF wf a, of ?L d] visit_descendant[OF wf a, of d ?L] by auto
  have sk': "map skel (tasks w') = map skel (tasks w0)" using p_cancel_skel(1)[OF run] sk by simp
  show ?thesis
  proof (rule that[OF run lg sk'])
    show "state (tasks w' ! i) = (if descendant w0 a i then Canceled else state (tasks w0 ! i))"
      if "i < ?L" for i
      using p_cancel_states(1)[OF wfw _ run] that a tk descendant_skel[OF sk] by simp
    show "filter (about_finally d) ?es = events_at w0 a ft d" if "descendant w0 a d" for d
      using filter_events_visit[OF dist] mem that by simp
    show "filter (about_finally d) ?es = []" if "\<not> descendant w0 a d" for d
      using filter_events_visit[OF dist] mem that by simp
    show "is_finally_event e" if "e \<in> set ?es" for e
      using that events_at_finally by auto
    show "\<exists>A B C. ?es = A @ events_at w0 a ft p @ B @ events_at w0 a ft d @ C"
      if "descendant w0 a p" "descendant w0 p d" "p \<noteq> d" for p d
    proof -
      from visit_order[OF wf a _ that, of ?L] obtain l1 l2 l3
        where "?V = l1 @ p # l2 @ d # l3" by auto
      then have "?es = concat (map (events_at w0 a ft) l1) @ events_at w0 a ft p @
          concat (map (events_at w0 a ft) l2) @ events_at w0 a ft d @ concat (map (events_at w0 a ft) l3)"
        by simp
      then show ?thesis by blast
    qed
  qed
qed

text \<open>\<open>cancel\<close> on a Pending Task that ends Canceled: the propagation from the origin.\<close>

lemma task_cancel_propagates:
  assumes wf: "well_formed w" and t: "t < length (tasks w)"
    and p: "state (tasks w ! t) = Pending"
    and tc: "task_cancel t w = Some (w', r)" and c: "state (tasks w' ! t) = Canceled"
  obtains pre where "r = Returned"
    "set pre \<subseteq> CancelerCalled ` set (escalation w t) \<union> {HookCalled (origin w t)}"
    "count_list pre (HookCalled (origin w t)) \<le> 1"
    "HookCalled (origin w t) \<in> set pre \<Longrightarrow> is_root w (origin w t)"
    "p_cancel (length (tasks w)) Void (origin w t) (add_logs pre w) = Some w'"
proof -
  let ?a = "origin w t"
  let ?w0 = "add_logs (map CancelerCalled (escalation w t)) w"
  have wf0: "well_formed ?w0" using wf by simp
  have al: "?a < length (tasks ?w0)" using origin_descendant[OF wf t] t by simp
  have f: "finish ?a ?w0 = Some (w', r)" using task_cancel_char[OF wf t p] tc by simp
  have nh: "count_list (map CancelerCalled xs) (HookCalled x) = 0" for xs x
    by (rule count_list_not_in) auto
  show ?thesis
  proof (rule finish_cases[OF wf0 al])
    fix e assume "finish ?a ?w0 = Some (add_log (HookCalled ?a) ?w0, Threw e)"
    then have "tasks w' = tasks w" using f by auto
    then show ?thesis using p c by simp
  next
    fix w'' assume can: "canceler (tasks ?w0 ! ?a) = RootCanceler HookReturns ?a"
      and run: "p_cancel (length (tasks ?w0)) Void ?a (add_log (HookCalled ?a) ?w0) = Some w''"
      and f': "finish ?a ?w0 = Some (w'', Returned)"
    show ?thesis
    proof (rule that[of "map CancelerCalled (escalation w t) @ [HookCalled ?a]"])
      show "r = Returned" using f f' by simp
      show "p_cancel (length (tasks w)) Void ?a
          (add_logs (map CancelerCalled (escalation w t) @ [HookCalled ?a]) w) = Some w'"
        using run f f' by (simp add: add_logs_def add_log_def)
      show "count_list (map CancelerCalled (escalation w t) @ [HookCalled ?a]) (HookCalled ?a) \<le> 1"
        using nh by simp
      show "is_root w ?a" using can by (simp add: is_root_def)
    qed auto
  next
    fix q w'' assume run: "p_cancel (length (tasks ?w0)) Void ?a ?w0 = Some w''"
      and f': "finish ?a ?w0 = Some (w'', Returned)"
    show ?thesis
    proof (rule that[of "map CancelerCalled (escalation w t)"])
      show "r = Returned" using f f' by simp
      show "p_cancel (length (tasks w)) Void ?a (add_logs (map CancelerCalled (escalation w t)) w) = Some w'"
        using run f f' by simp
      show "count_list (map CancelerCalled (escalation w t)) (HookCalled ?a) \<le> 1"
        using nh by simp
      show "is_root w ?a" if "HookCalled ?a \<in> set (map CancelerCalled (escalation w t))"
        using that by auto
    qed auto
  qed
qed

lemma handed_down_tasks: "tasks w' = tasks w \<Longrightarrow> handed_down w' t ft = handed_down w t ft"
  by (simp add: handed_down_def finally_block_def split: option.splits)

lemma runFinally_quiet [simp]: "runFinally (quiet_callback cb) = runFinally cb"
  by (cases cb) (simp_all add: runFinally_def)

lemma quiet_simps [simp]:
  "length (tasks (quiet w)) = length (tasks w)"
  "log (quiet w) = log w"
  "i < length (tasks w) \<Longrightarrow> state (tasks (quiet w) ! i) = state (tasks w ! i)"
  "i < length (tasks w) \<Longrightarrow> canceler (tasks (quiet w) ! i) = canceler (tasks w ! i)"
  "i < length (tasks w) \<Longrightarrow> children (tasks (quiet w) ! i) = children (tasks w ! i)"
  "i < length (tasks w) \<Longrightarrow>
     task_finally (tasks (quiet w) ! i) = map_option quiet_callback (task_finally (tasks w ! i))"
  by (simp_all add: quiet_def quiet_task_def)

lemma quiet_add_log [simp]: "quiet (add_log e w) = add_log e (quiet w)"
  by (simp add: quiet_def add_log_def)

lemma quiet_add_logs [simp]: "quiet (add_logs es w) = add_logs es (quiet w)"
  by (simp add: quiet_def add_logs_def)

lemma quiet_task_state: "quiet_task (t\<lparr>state := s\<rparr>) = (quiet_task t)\<lparr>state := s\<rparr>"
  by (cases t) (simp add: quiet_task_def)

lemma quiet_set_state: "quiet (set_state t s w) = set_state t s (quiet w)"
proof (cases "t < length (tasks w)")
  case True
  then show ?thesis by (simp add: quiet_def set_state_def map_update quiet_task_state)
next
  case False
  then show ?thesis by (simp add: quiet_def set_state_def list_update_beyond)
qed

lemma finally_block_quiet:
  assumes "t < length (tasks w)"
  shows "finally_block ft t (quiet w) =
           (fst (finally_block ft t w), quiet (snd (finally_block ft t w)))"
  using assms by (cases "task_finally (tasks w ! t)") (simp_all add: finally_block_def)

lemma well_formed_quiet [simp]: "well_formed (quiet w) = well_formed w"
proof
  assume "well_formed w"
  then show "well_formed (quiet w)" by (rule well_formed_links[rotated 3]) simp_all
next
  assume "well_formed (quiet w)"
  then show "well_formed w" by (rule well_formed_links[rotated 3]) simp_all
qed

lemma p_cancel_quiet:
  "well_formed w \<Longrightarrow> a < length (tasks w) \<Longrightarrow>
   p_cancel n ft a (quiet w) = map_option quiet (p_cancel n ft a w)"
  "well_formed w \<Longrightarrow> \<forall>c \<in> set cs. c < length (tasks w) \<Longrightarrow>
   forEach_p_cancel n ft cs (quiet w) = map_option quiet (forEach_p_cancel n ft cs w)"
proof (induction n ft a w and n ft cs w rule: p_cancel_forEach_p_cancel.induct)
  case (1 finallyTask this w)
  then show ?case by simp
next
  case (2 n ft this w)
  note wf = "2.prems"(1) and a = "2.prems"(2)
  let ?w1 = "set_state this Canceled w"
  obtain ft' w2 where fb: "finally_block ft this ?w1 = (ft', w2)"
    by (cases "finally_block ft this ?w1")
  have a1: "this < length (tasks ?w1)" using a by simp
  have fbq: "finally_block ft this (set_state this Canceled (quiet w)) = (ft', quiet w2)"
    using finally_block_quiet[OF a1, of ft] fb by (simp add: quiet_set_state)
  have t2: "tasks w2 = tasks ?w1" using tasks_finally_block[of ft this ?w1] fb by simp
  have sk: "map skel (tasks w2) = map skel (tasks w)" by (simp add: t2 skel_set_state)
  have wf2: "well_formed w2" using wf well_formed_skel[OF sk] by simp
  have len: "length (tasks w2) = length (tasks w)" using same_skelD(1)[OF sk] .
  have ch: "children (tasks w2 ! this) = children (tasks w ! this)"
    using same_skelD(2)[OF sk a] .
  have inr: "\<forall>c \<in> set (children (tasks w2 ! this)). c < length (tasks w2)"
    using well_formed_childD(2)[OF wf a] unfolding ch len by blast
  have chq: "children (tasks (quiet w2) ! this) = children (tasks w2 ! this)"
    using a len by simp
  from "2.IH"[OF refl fb[symmetric] refl wf2 inr]
  show ?case by (simp add: fb fbq chq)
next
  case (3 n finallyTask w)
  then show ?case by simp
next
  case (4 n ft child rest w)
  have c: "child < length (tasks w)" using "4.prems"(2) by simp
  note ih1 = "4.IH"(1)[OF "4.prems"(1) c]
  show ?case
  proof (cases "p_cancel n ft child w")
    case None
    then show ?thesis using ih1 by simp
  next
    case (Some w1)
    have sk: "map skel (tasks w1) = map skel (tasks w)" using p_cancel_skel(1)[OF Some] .
    have wf1: "well_formed w1" using "4.prems"(1) well_formed_skel[OF sk] by simp
    have r: "\<forall>c \<in> set rest. c < length (tasks w1)"
      using "4.prems"(2) same_skelD(1)[OF sk] by simp
    from "4.IH"(2)[OF Some wf1 r] ih1 Some show ?thesis by simp
  qed
qed

lemma escalation_quiet:
  "t < length (tasks w) \<Longrightarrow> escalation (quiet w) t = escalation w t"
proof (induction t rule: less_induct)
  case (less t)
  have "p < t \<Longrightarrow> escalation (quiet w) p = escalation w p" for p
    using less by simp
  then show ?case
    unfolding escalation.simps[of "quiet w" t] escalation.simps[of w t]
    using less.prems by (auto split: canceler.splits)
qed

lemma task_cancel_quiet:
  assumes wf: "well_formed w" and t: "t < length (tasks w)"
  shows "task_cancel t (quiet w) = map_option (\<lambda>(w', r). (quiet w', r)) (task_cancel t w)"
proof (cases "state (tasks w ! t) = Pending")
  case False
  then show ?thesis using t by (simp add: task_cancel_def fuel_Suc)
next
  case True
  let ?a = "origin w t"
  let ?es = "map CancelerCalled (escalation w t)"
  have al: "?a < length (tasks w)" using origin_descendant[OF wf t] t by simp
  have oq: "origin (quiet w) t = ?a" by (simp add: origin_def escalation_quiet[OF t])
  have 1: "task_cancel t w = finish ?a (add_logs ?es w)" by (rule task_cancel_char[OF wf t True])
  have 2: "task_cancel t (quiet w) = finish ?a (add_logs ?es (quiet w))"
    using task_cancel_char[of "quiet w" t] wf t True by (simp add: oq escalation_quiet[OF t])
  have "finish ?a (add_logs ?es (quiet w)) =
      map_option (\<lambda>(w', r). (quiet w', r)) (finish ?a (add_logs ?es w))"
  proof (cases "canceler (tasks w ! ?a)")
    case (RootCanceler h x)
    have "p_cancel (length (tasks w)) Void ?a (quiet (add_log (HookCalled ?a) (add_logs ?es w))) =
        map_option quiet (p_cancel (length (tasks w)) Void ?a (add_log (HookCalled ?a) (add_logs ?es w)))"
      by (rule p_cancel_quiet(1)) (use wf al in simp_all)
    then show ?thesis using RootCanceler al
      by (cases h) (simp_all add: finish_def option.map_comp comp_def)
  next
    case (ThenCanceler p x)
    have "p_cancel (length (tasks w)) Void ?a (quiet (add_logs ?es w)) =
        map_option quiet (p_cancel (length (tasks w)) Void ?a (add_logs ?es w))"
      by (rule p_cancel_quiet(1)) (use wf al in simp_all)
    then show ?thesis using ThenCanceler al
      by (simp add: finish_def option.map_comp comp_def)
  qed
  then show ?thesis using 1 2 by simp
qed

lemma escalation_members:
  assumes wf: "well_formed w"
  shows "t < length (tasks w) \<Longrightarrow> state (tasks w ! t) = Pending \<Longrightarrow> x \<in> set (escalation w t) \<Longrightarrow>
     descendant w x t \<and> descendant w (origin w t) x \<and> state (tasks w ! x) = Pending"
proof (induction t rule: less_induct)
  case (less t)
  note od = origin_descendant[OF wf less.prems(1)]
  show ?case
  proof (cases "canceler (tasks w ! t)")
    case (RootCanceler h y)
    then have "escalation w t = [t]" unfolding escalation.simps[of w t] by simp
    then show ?thesis using less.prems od by (simp add: descendant.self)
  next
    case (ThenCanceler p y)
    then have p: "p < t" and ch: "t \<in> set (children (tasks w ! p))"
      using well_formed_cancelerD(2)[OF wf less.prems(1)] by simp_all
    have pl: "p < length (tasks w)" using p less.prems(1) by simp
    show ?thesis
    proof (cases "state (tasks w ! p) = Pending")
      case True
      then have e: "escalation w t = t # escalation w p"
        using ThenCanceler p unfolding escalation.simps[of w t] by simp
      have o: "origin w t = origin w p" by (simp add: origin_def e)
      show ?thesis
      proof (cases "x = t")
        case True
        then show ?thesis using od less.prems(2) by (simp add: descendant.self)
      next
        case False
        then have "x \<in> set (escalation w p)" using less.prems(3) e by simp
        from less.IH[OF p pl True this] show ?thesis
          unfolding o using descendant.child[OF _ pl ch] by simp
      qed
    next
      case False
      then have "escalation w t = [t]" using ThenCanceler unfolding escalation.simps[of w t] by simp
      then show ?thesis using less.prems od by (simp add: descendant.self)
    qed
  qed
qed

lemma p_cancel_no_finally:
  assumes "q < length (tasks w)" "task_finally (tasks w ! q) = None"
  shows "p_cancel (Suc n) ft q w =
           forEach_p_cancel n ft (children (tasks w ! q)) (set_state q Canceled w)"
  using assms by (simp add: finally_block_def set_state_def)

section \<open>The claims\<close>

lemma fulfilled_root_run: "run init [New HookReturns, Resolve 0 (Val 1)] = Some fulfilled_root"
  by (simp add: fulfilled_root_def init_def new_task_def executor_resolve_def base_resolve_def
      add_log_def is_root_def Let_def)

text \<open>
  C3. \<open>cancel()\<close> on a Task that is not Pending (Fulfilled, Rejected or Canceled) does
  nothing: it returns, and the store and the log are what they were, so no state has
  changed, no canceler, hook or finally callback was called, and no child was visited.
\<close>

theorem cancel_not_pending_noop:
  "state (tasks w ! t) \<noteq> Pending \<Longrightarrow> task_cancel t w = Some (w, Returned)"
  by (simp add: task_cancel_def fuel_Suc)

theorem cancel_not_pending_noop_witness:
  "state (tasks fulfilled_root ! 0) \<noteq> Pending \<and>
   task_cancel 0 fulfilled_root = Some (fulfilled_root, Returned)"
proof -
  have h: "state (tasks fulfilled_root ! 0) \<noteq> Pending"
    by (simp add: fulfilled_root_def)
  show ?thesis using h cancel_not_pending_noop[OF h] by simp
qed

text \<open>
  C5. With both handlers omitted, \<open>then\<close> does not pass the value or the error of its
  parent through: the wrappers call the omitted handler, which throws a TypeError. Here
  a Task is fulfilled with 7 and a Task chained on it by \<open>then()\<close> is rejected with the
  TypeError; and the wrapper for a rejection with error 3 throws the TypeError, not
  error 3.
\<close>

theorem then_omitted_handlers_throw:
  "map_option (\<lambda>w. (then_onFulfilled 1 (Val 7) w = (w, Inl TypeError),
                      then_onRejected 1 (Error 3) w = (w, Inl TypeError),
                      map_option (\<lambda>w'. (state (tasks w' ! 1), settled (tasks w' ! 1)))
                        (step w (Deliver 1))))
     (run init [New HookReturns, Then 0 None None, Resolve 0 (Val 7)])
   = Some (True, True, Some (Rejected, Some (Inl TypeError)))"
  by code_simp


text \<open>
  C1. Let \<open>c\<close> be a Task made by \<open>p.then(...)\<close>, both Pending. Then \<open>c.cancel()\<close> is
  \<open>p.cancel()\<close>, called by the canceler of \<open>c\<close>; it returns or throws what the hook of
  the origin throws; and afterwards \<open>c\<close> is not Canceled with \<open>p\<close> still Pending: when
  the call returns both are Canceled, and when it throws no Task has changed.
\<close>

theorem cancel_child_cancels_parent:
  assumes wf: "well_formed w" and c: "c < length (tasks w)"
    and can: "canceler (tasks w ! c) = ThenCanceler p c"
    and chi: "state (tasks w ! c) = Pending"
    and par: "state (tasks w ! p) = Pending"
  shows "task_cancel c w = task_cancel p (add_log (CancelerCalled c) w) \<and>
         (\<exists>w' r. task_cancel c w = Some (w', r) \<and>
            \<not> (state (tasks w' ! c) = Canceled \<and> state (tasks w' ! p) = Pending) \<and>
            (r = Returned \<longrightarrow> state (tasks w' ! p) = Canceled \<and> state (tasks w' ! c) = Canceled) \<and>
            (\<forall>e. r = Threw e \<longrightarrow> tasks w' = tasks w))"
proof -
  have pc: "p < c" and ch: "c \<in> set (children (tasks w ! p))"
    using well_formed_cancelerD(2)[OF wf c can] by simp_all
  have pl: "p < length (tasks w)" using pc c by simp
  have esc: "escalation w c = c # escalation w p"
    unfolding escalation.simps[of w c] using can par pc by simp
  have o: "origin w c = origin w p" by (simp add: origin_def esc)
  let ?w1 = "add_log (CancelerCalled c) w"
  let ?w0 = "add_logs (map CancelerCalled (escalation w c)) w"
  let ?a = "origin w p"
  have wf1: "well_formed ?w1" using wf by simp
  have 1: "task_cancel c w = finish ?a ?w0"
    using task_cancel_char[OF wf c chi] o by simp
  have 2: "task_cancel p ?w1 = finish ?a ?w0"
    using task_cancel_char[OF wf1, of p] pl par
    by (simp add: origin_def esc add_logs_add_log)
  have eq: "task_cancel c w = task_cancel p ?w1" using 1 2 by simp
  have wf0: "well_formed ?w0" using wf by simp
  from origin_descendant[OF wf pl] have dp: "descendant w ?a p" and ale: "?a \<le> p" by simp_all
  have dc: "descendant w ?a c" using descendant.child[OF dp pl ch] .
  have al: "?a < length (tasks ?w0)" using ale pl by simp
  have "\<exists>w' r. finish ?a ?w0 = Some (w', r) \<and>
            \<not> (state (tasks w' ! c) = Canceled \<and> state (tasks w' ! p) = Pending) \<and>
            (r = Returned \<longrightarrow> state (tasks w' ! p) = Canceled \<and> state (tasks w' ! c) = Canceled) \<and>
            (\<forall>e. r = Threw e \<longrightarrow> tasks w' = tasks w)"
  proof (rule finish_cases[OF wf0 al])
    fix e assume "finish ?a ?w0 = Some (add_log (HookCalled ?a) ?w0, Threw e)"
    then show ?thesis using chi by simp
  next
    fix w' assume run: "p_cancel (length (tasks ?w0)) Void ?a (add_log (HookCalled ?a) ?w0) = Some w'"
      and f: "finish ?a ?w0 = Some (w', Returned)"
    have "state (tasks w' ! p) = Canceled" "state (tasks w' ! c) = Canceled"
      using p_cancel_frame(2)[OF _ _ run, of p] p_cancel_frame(2)[OF _ _ run, of c] wf al pl c dp dc
      by simp_all
    then show ?thesis using f by simp
  next
    fix q w' assume run: "p_cancel (length (tasks ?w0)) Void ?a ?w0 = Some w'"
      and f: "finish ?a ?w0 = Some (w', Returned)"
    have "state (tasks w' ! p) = Canceled" "state (tasks w' ! c) = Canceled"
      using p_cancel_frame(2)[OF _ _ run, of p] p_cancel_frame(2)[OF _ _ run, of c] wf al pl c dp dc
      by simp_all
    then show ?thesis using f by simp
  qed
  then show ?thesis using eq 1 by simp
qed

theorem cancel_child_cancels_parent_witness:
  "well_formed pending_chain \<and> 2 < length (tasks pending_chain) \<and>
   canceler (tasks pending_chain ! 2) = ThenCanceler 1 2 \<and>
   state (tasks pending_chain ! 2) = Pending \<and> state (tasks pending_chain ! 1) = Pending \<and>
   task_cancel 2 pending_chain = task_cancel 1 (add_log (CancelerCalled 2) pending_chain) \<and>
   (\<exists>w'. task_cancel 2 pending_chain = Some (w', Returned) \<and>
      state (tasks w' ! 1) = Canceled \<and> state (tasks w' ! 2) = Canceled)"
proof -
  have h1: "well_formed pending_chain" by code_simp
  have h2: "2 < length (tasks pending_chain)" by code_simp
  have h3: "canceler (tasks pending_chain ! 2) = ThenCanceler 1 2" by code_simp
  have h4: "state (tasks pending_chain ! 2) = Pending" by code_simp
  have h5: "state (tasks pending_chain ! 1) = Pending" by code_simp
  have r: "map_option snd (task_cancel 2 pending_chain) = Some Returned" by code_simp
  from cancel_child_cancels_parent[OF h1 h2 h3 h4 h5] r
  show ?thesis using h1 h2 h3 h4 h5 by auto
qed



lemma canceled_child_run:
  "run init [New HookReturns, Resolve 0 (Val 1), Then 0 (Some (Handler (Inr (Val 2)))) None, Cancel 1]
   = Some canceled_child"
  by code_simp

text \<open>
  C6. Let \<open>t\<close> be a Canceled Task of a store made by the operations. The two functions
  that the constructor handed to the executor do nothing, and the two wrappers of \<open>then\<close>
  return \<open>undefined\<close> without calling the handler. Whatever operations follow, \<open>t\<close> stays
  Canceled, no handler of \<open>t\<close> is called, and if \<open>t\<close> was made by the constructor its base
  future is neither resolved nor rejected. (The witness is the scenario of the
  specification: a Task is resolved, a Task chained on it is canceled before its handler
  runs, and the handler is then not run.)
\<close>

theorem canceled_task_runs_no_callbacks:
  assumes r: "run init ops = Some w" and t: "t < length (tasks w)"
    and c: "state (tasks w ! t) = Canceled"
  shows "executor_resolve t v w = w \<and> executor_reject t e w = w \<and>
         then_onFulfilled t v w = (w, Inr Undefined) \<and>
         then_onRejected t e w = (w, Inr Undefined) \<and>
         (\<forall>ops'. \<exists>w' es. run w ops' = Some w' \<and> state (tasks w' ! t) = Canceled \<and>
             log w' = log w @ es \<and> HandlerCalled t \<notin> set es \<and>
             (is_root w t \<longrightarrow> (\<forall>x \<in> set es. \<not> base_event t x)))"
proof -
  have inv: "invariant w" using run_init_invariant[OF r] .
  have 1: "executor_resolve t v w = w" "executor_reject t e w = w"
    "then_onFulfilled t v w = (w, Inr Undefined)" "then_onRejected t e w = (w, Inr Undefined)"
    using c by (simp_all add: executor_resolve_def executor_reject_def then_onFulfilled_def
        then_onRejected_def)
  have 2: "\<exists>w' es. run w ops' = Some w' \<and> state (tasks w' ! t) = Canceled \<and>
             log w' = log w @ es \<and> HandlerCalled t \<notin> set es \<and>
             (is_root w t \<longrightarrow> (\<forall>x \<in> set es. \<not> base_event t x))" for ops'
  proof -
    from run_invariant[OF inv, of ops'] obtain w' where w': "run w ops' = Some w'" by blast
    from run_keeps[OF inv w'] have "state (tasks w' ! t) = Canceled"
      using t c by (simp add: keeps_def)
    then show ?thesis using run_canceled_quiet[OF inv t c w'] w' by blast
  qed
  from 1 2 show ?thesis by blast
qed

theorem canceled_task_runs_no_callbacks_witness:
  "run init [New HookReturns, Resolve 0 (Val 1), Then 0 (Some (Handler (Inr (Val 2)))) None, Cancel 1]
     = Some canceled_child \<and>
   1 < length (tasks canceled_child) \<and> state (tasks canceled_child ! 1) = Canceled \<and>
   then_onFulfilled 1 (Val 1) canceled_child = (canceled_child, Inr Undefined) \<and>
   (\<exists>w'. run canceled_child [Deliver 1] = Some w' \<and> state (tasks w' ! 1) = Canceled \<and>
      HandlerCalled 1 \<notin> set (log w'))"
proof -
  have h1: "run init [New HookReturns, Resolve 0 (Val 1),
      Then 0 (Some (Handler (Inr (Val 2)))) None, Cancel 1] = Some canceled_child"
    by (rule canceled_child_run)
  have h2: "1 < length (tasks canceled_child)" by code_simp
  have h3: "state (tasks canceled_child ! 1) = Canceled" by code_simp
  have l: "HandlerCalled 1 \<notin> set (log canceled_child)" by code_simp
  note th = canceled_task_runs_no_callbacks[OF h1 h2 h3, of "Val 1" TypeError]
  from th have a: "then_onFulfilled 1 (Val 1) canceled_child = (canceled_child, Inr Undefined)"
    by blast
  from th obtain w' es where "run canceled_child [Deliver 1] = Some w'"
    "state (tasks w' ! 1) = Canceled" "log w' = log canceled_child @ es"
    "HandlerCalled 1 \<notin> set es" by blast
  then have "\<exists>w'. run canceled_child [Deliver 1] = Some w' \<and> state (tasks w' ! 1) = Canceled \<and>
      HandlerCalled 1 \<notin> set (log w')" using l by auto
  then show ?thesis using h1 h2 h3 a by blast
qed






lemma finally_tree_run:
  "run init
     [New HookReturns, Finally 0 (Returning (Thenable (External 7))), Then 1 None None,
      Finally 2 (Returning Void), Finally 0 (Throwing (Error 1)), Finally 4 (Returning Void)]
   = Some finally_tree"
  by code_simp



text \<open>
  C7. \<open>runFinally\<close> turns a callback that throws into the result \<open>undefined\<close>. So for
  \<open>cancel()\<close> on a Pending Task \<open>t\<close>, with origin \<open>a\<close>, whatever the finally callbacks
  do: the call returns or throws, and what it throws is what the cancel hook of the
  origin threw, never the error of a callback; when it returns, every descendant of the
  origin is Canceled and every other Task has the state it had, so no Task is Rejected
  by it, and the base future of no Task is resolved or rejected; and the result is the
  same as in the store in which the callbacks that throw return \<open>undefined\<close> instead.
\<close>

theorem finalizer_errors_discarded:
  assumes wf: "well_formed w" and t: "t < length (tasks w)"
    and p: "state (tasks w ! t) = Pending" and a: "a = origin w t"
  shows "(\<forall>e. runFinally (Throwing e) = Void) \<and>
    (\<exists>w' r es. task_cancel t w = Some (w', r) \<and> log w' = log w @ es \<and>
       (\<forall>e. r = Threw e \<longrightarrow> canceler (tasks w ! a) = RootCanceler (HookThrows e) a) \<and>
       (\<forall>i < length (tasks w).
          state (tasks w' ! i) =
            (if r = Returned \<and> descendant w a i then Canceled else state (tasks w ! i))) \<and>
       (\<forall>e \<in> set es. \<forall>x. \<not> base_event x e) \<and>
       task_cancel t (quiet w) = Some (quiet w', r))"
proof -
  have 1: "\<forall>e. runFinally (Throwing e) = Void" by (simp add: runFinally_def)
  note q = task_cancel_quiet[OF wf t]
  have nb: "\<not> base_event x e" if "e \<in> CancelerCalled ` X \<union> {HookCalled y}" for x e X y
    using that by auto
  have 2: "\<exists>w' r es. task_cancel t w = Some (w', r) \<and> log w' = log w @ es \<and>
       (\<forall>e. r = Threw e \<longrightarrow> canceler (tasks w ! a) = RootCanceler (HookThrows e) a) \<and>
       (\<forall>i < length (tasks w).
          state (tasks w' ! i) =
            (if r = Returned \<and> descendant w a i then Canceled else state (tasks w ! i))) \<and>
       (\<forall>e \<in> set es. \<forall>x. \<not> base_event x e) \<and>
       task_cancel t (quiet w) = Some (quiet w', r)"
  proof (rule task_cancel_effect[OF wf t p])
    fix e
    assume can: "canceler (tasks w ! origin w t) = RootCanceler (HookThrows e) (origin w t)"
      and res: "task_cancel t w =
         Some (add_logs (map CancelerCalled (escalation w t) @ [HookCalled (origin w t)]) w, Threw e)"
    let ?es = "map CancelerCalled (escalation w t) @ [HookCalled (origin w t)]"
    have "\<forall>e \<in> set ?es. \<forall>x. \<not> base_event x e" by auto
    then show ?thesis
      using res can q unfolding a by (intro exI[of _ "add_logs ?es w"] exI[of _ "Threw e"] exI[of _ ?es]) simp
  next
    fix w' hs fs
    assume res: "task_cancel t w = Some (w', Returned)"
      and lg: "log w' = log w @ map CancelerCalled (escalation w t) @ hs @ fs"
      and hs: "set hs \<subseteq> {HookCalled (origin w t)}"
      and fs: "\<forall>e \<in> set fs. is_finally_event e"
      and st: "\<forall>i < length (tasks w).
         state (tasks w' ! i) = (if descendant w (origin w t) i then Canceled else state (tasks w ! i))"
    let ?es = "map CancelerCalled (escalation w t) @ hs @ fs"
    have "\<forall>e \<in> set ?es. \<forall>x. \<not> base_event x e"
      using hs fs finally_event_not_base by auto
    then show ?thesis
      using res lg st q unfolding a by (intro exI[of _ w'] exI[of _ Returned] exI[of _ ?es]) simp
  qed
  from 1 2 show ?thesis by blast
qed

theorem finalizer_errors_discarded_witness:
  "well_formed finally_tree \<and> 0 < length (tasks finally_tree) \<and>
   state (tasks finally_tree ! 0) = Pending \<and> 0 = origin finally_tree 0 \<and>
   task_finally (tasks finally_tree ! 4) = Some (Throwing (Error 1)) \<and>
   descendant finally_tree 0 4 \<and> descendant finally_tree 0 5 \<and>
   (\<exists>w'. task_cancel 0 finally_tree = Some (w', Returned) \<and>
      state (tasks w' ! 4) = Canceled \<and> state (tasks w' ! 5) = Canceled \<and>
      task_cancel 0 (quiet finally_tree) = Some (quiet w', Returned))"
proof -
  have h1: "well_formed finally_tree" by code_simp
  have h2: "0 < length (tasks finally_tree)" by code_simp
  have h3: "state (tasks finally_tree ! 0) = Pending" by code_simp
  have o: "0 = origin finally_tree 0" by code_simp
  have l: "length (tasks finally_tree) = 6" by code_simp
  have f: "task_finally (tasks finally_tree ! 4) = Some (Throwing (Error 1))" by code_simp
  have r: "map_option snd (task_cancel 0 finally_tree) = Some Returned" by code_simp
  have "in_subtree finally_tree 0 4" "in_subtree finally_tree 0 5" by code_simp+
  then have d: "descendant finally_tree 0 4" "descendant finally_tree 0 5"
    using descendant_iff[OF h1] l by simp_all
  from finalizer_errors_discarded[OF h1 h2 h3 o] obtain w' r' where
    tc: "task_cancel 0 finally_tree = Some (w', r')"
    and st: "\<forall>i < length (tasks finally_tree).
          state (tasks w' ! i) =
            (if r' = Returned \<and> descendant finally_tree 0 i then Canceled
             else state (tasks finally_tree ! i))"
    and q: "task_cancel 0 (quiet finally_tree) = Some (quiet w', r')" by blast
  have r': "r' = Returned" using r tc by simp
  have "state (tasks w' ! 4) = Canceled" "state (tasks w' ! 5) = Canceled"
    using st r' d l by simp_all
  then show ?thesis using h1 h2 h3 o f d tc q r' by blast
qed

text \<open>
  C10. A Task without a finally callback passes the \<open>finallyTask\<close> it was called with to
  its children: \<open>_cancel\<close> on it is the loop over its children with the same
  \<open>finallyTask\<close>. So what a Task \<open>q\<close> hands down reaches, unchanged, every descendant \<open>d\<close>
  of a child \<open>c\<close> of \<open>q\<close> with no finally callback from \<open>c\<close> down to the parent of \<open>d\<close>, and
  the event of \<open>d\<close> is the one for that \<open>finallyTask\<close>. And \<open>cancel()\<close> on the Pending Task
  \<open>t\<close>, with origin \<open>a\<close> (which is \<open>t\<close> or a Pending ancestor of \<open>t\<close>), calls no hook but
  that of \<open>a\<close>, at most once, and calls the canceler only of Pending Tasks from \<open>t\<close> up to
  \<open>a\<close>: no canceler and no hook of a Task below is called, while all the Tasks below
  \<open>a\<close> are set to Canceled and their finally callbacks run or attached.
\<close>

theorem finally_result_forwarded:
  assumes wf: "well_formed w" and t: "t < length (tasks w)"
    and p: "state (tasks w ! t) = Pending" and a: "a = origin w t"
  shows "(\<forall>n ft q w0. q < length (tasks w0) \<and> task_finally (tasks w0 ! q) = None \<longrightarrow>
       p_cancel (Suc n) ft q w0 =
         forEach_p_cancel n ft (children (tasks w0 ! q)) (set_state q Canceled w0)) \<and>
    (\<forall>q c d. descendant w a q \<and> q < length (tasks w) \<and> c \<in> set (children (tasks w ! q)) \<and>
        descendant w c d \<and>
        (\<forall>x. descendant w c x \<and> descendant w x d \<and> x \<noteq> d \<longrightarrow> task_finally (tasks w ! x) = None)
        \<longrightarrow> incoming w a Void d = handed_down w q (incoming w a Void q)) \<and>
    (\<forall>q. task_finally (tasks w ! q) = None \<longrightarrow> (\<forall>ft. handed_down w q ft = ft)) \<and>
    (\<exists>w' r es. task_cancel t w = Some (w', r) \<and> log w' = log w @ es \<and>
       descendant w a t \<and> state (tasks w ! a) = Pending \<and>
       (\<forall>x. HookCalled x \<in> set es \<longrightarrow> x = a \<and> is_root w a) \<and>
       count_list es (HookCalled a) \<le> 1 \<and>
       (\<forall>x. CancelerCalled x \<in> set es \<longrightarrow>
          descendant w a x \<and> descendant w x t \<and> state (tasks w ! x) = Pending) \<and>
       (r = Returned \<longrightarrow>
          (\<forall>d. descendant w a d \<longrightarrow>
             state (tasks w' ! d) = Canceled \<and>
             filter (about_finally d) es = events_at w a Void d)))"
proof (intro conjI)
  have at: "descendant w a t" and al: "a < length (tasks w)"
    using origin_descendant[OF wf t] t unfolding a by simp_all
  have ap: "state (tasks w ! a) = Pending" using origin_state[OF p] unfolding a .
  show "\<forall>n ft q w0. q < length (tasks w0) \<and> task_finally (tasks w0 ! q) = None \<longrightarrow>
       p_cancel (Suc n) ft q w0 =
         forEach_p_cancel n ft (children (tasks w0 ! q)) (set_state q Canceled w0)"
    using p_cancel_no_finally by blast
  show "\<forall>q c d. descendant w a q \<and> q < length (tasks w) \<and> c \<in> set (children (tasks w ! q)) \<and>
        descendant w c d \<and>
        (\<forall>x. descendant w c x \<and> descendant w x d \<and> x \<noteq> d \<longrightarrow> task_finally (tasks w ! x) = None)
        \<longrightarrow> incoming w a Void d = handed_down w q (incoming w a Void q)"
  proof (intro allI impI, elim conjE)
    fix q c d
    assume aq: "descendant w a q" and ql: "q < length (tasks w)"
      and c: "c \<in> set (children (tasks w ! q))" and cd: "descendant w c d"
      and none: "\<forall>x. descendant w c x \<and> descendant w x d \<and> x \<noteq> d \<longrightarrow>
                  task_finally (tasks w ! x) = None"
    have ac: "descendant w a c" using descendant.child[OF aq ql c] .
    have "a \<le> q" using descendant_ge[OF wf aq] .
    then have "c \<noteq> a" using well_formed_childD(1)[OF wf ql c] by simp
    then have 1: "incoming w a Void c = handed_down w q (incoming w a Void q)"
      using incoming_child[OF wf ql c] by simp
    have 2: "incoming w a Void d = incoming w a Void c"
    proof (rule incoming_skips[OF wf ac cd])
      fix x assume "descendant w c x" "descendant w x d" "x \<noteq> d"
      then show "task_finally (tasks w ! x) = None" using none by blast
    qed
    show "incoming w a Void d = handed_down w q (incoming w a Void q)" using 1 2 by simp
  qed
  show "\<forall>q. task_finally (tasks w ! q) = None \<longrightarrow> (\<forall>ft. handed_down w q ft = ft)"
    using handed_down_None by blast
  have cc: "descendant w a x \<and> descendant w x t \<and> state (tasks w ! x) = Pending"
    if "x \<in> set (escalation w t)" for x
    using escalation_members[OF wf t p that] unfolding a by simp
  have nh: "count_list (map CancelerCalled xs) (HookCalled x) = 0" for xs x
    by (rule count_list_not_in) auto
  show "\<exists>w' r es. task_cancel t w = Some (w', r) \<and> log w' = log w @ es \<and>
       descendant w a t \<and> state (tasks w ! a) = Pending \<and>
       (\<forall>x. HookCalled x \<in> set es \<longrightarrow> x = a \<and> is_root w a) \<and>
       count_list es (HookCalled a) \<le> 1 \<and>
       (\<forall>x. CancelerCalled x \<in> set es \<longrightarrow>
          descendant w a x \<and> descendant w x t \<and> state (tasks w ! x) = Pending) \<and>
       (r = Returned \<longrightarrow>
          (\<forall>d. descendant w a d \<longrightarrow>
             state (tasks w' ! d) = Canceled \<and>
             filter (about_finally d) es = events_at w a Void d))"
  proof (rule task_cancel_effect[OF wf t p])
    fix e
    assume can: "canceler (tasks w ! origin w t) = RootCanceler (HookThrows e) (origin w t)"
      and res: "task_cancel t w =
         Some (add_logs (map CancelerCalled (escalation w t) @ [HookCalled (origin w t)]) w, Threw e)"
    let ?es = "map CancelerCalled (escalation w t) @ [HookCalled a]"
    have res': "task_cancel t w = Some (add_logs ?es w, Threw e)" using res unfolding a .
    have rt: "is_root w a" using can unfolding a by (simp add: is_root_def)
    have h1: "\<forall>x. HookCalled x \<in> set ?es \<longrightarrow> x = a \<and> is_root w a" using rt by auto
    have h2: "count_list ?es (HookCalled a) \<le> 1" using nh by simp
    have h3: "\<forall>x. CancelerCalled x \<in> set ?es \<longrightarrow>
          descendant w a x \<and> descendant w x t \<and> state (tasks w ! x) = Pending"
      using cc by auto
    have h0: "log (add_logs ?es w) = log w @ ?es" by simp
    show ?thesis
      apply (rule exI[of _ "add_logs ?es w"])
      apply (rule exI[of _ "Threw e"])
      apply (rule exI[of _ ?es])
      using res' h0 at ap h1 h2 h3 apply (intro conjI)
             apply assumption+
      apply simp
      done
  next
    fix w' hs fs
    assume res: "task_cancel t w = Some (w', Returned)"
      and st: "\<forall>i < length (tasks w).
         state (tasks w' ! i) = (if descendant w (origin w t) i then Canceled else state (tasks w ! i))"
    have ct: "state (tasks w' ! t) = Canceled" using st t at unfolding a by simp
    note tp = task_cancel_propagates[OF wf t p res ct, folded a]
    show ?thesis
    proof (rule tp)
    fix pre
    assume pre: "set pre \<subseteq> CancelerCalled ` set (escalation w t) \<union> {HookCalled a}"
      and cnt: "count_list pre (HookCalled a) \<le> 1"
      and root: "HookCalled a \<in> set pre \<Longrightarrow> is_root w a"
      and run: "p_cancel (length (tasks w)) Void a (add_logs pre w) = Some w'"
    have tk: "tasks (add_logs pre w) = tasks w" by simp
    show ?thesis
    proof (rule p_cancel_effect[OF wf tk al, of Void])
      fix w'' es
      assume run': "p_cancel (length (tasks w)) Void a (add_logs pre w) = Some w''"
        and lg: "log w'' = log (add_logs pre w) @ es"
        and ev: "\<And>d. descendant w a d \<Longrightarrow> filter (about_finally d) es = events_at w a Void d"
        and fin: "\<And>e. e \<in> set es \<Longrightarrow> is_finally_event e"
      have w'': "w'' = w'" using run run' by simp
      have l: "log w' = log w @ (pre @ es)" using lg w'' by simp
      have nf: "\<not> about_finally d e" if "e \<in> set pre" for d e
        using that pre by auto
      have fl: "filter (about_finally d) (pre @ es) = filter (about_finally d) es" for d
        using nf by (simp add: filter_empty_conv)
      have hk: "HookCalled x \<notin> set es" "CancelerCalled x \<notin> set es" for x
        using fin[of "HookCalled x"] fin[of "CancelerCalled x"] by auto
      have h1: "\<forall>x. HookCalled x \<in> set (pre @ es) \<longrightarrow> x = a \<and> is_root w a"
      proof (intro allI impI)
        fix x assume "HookCalled x \<in> set (pre @ es)"
        then have "HookCalled x \<in> set pre" using hk(1) by simp
        then have "x = a" using pre by auto
        then show "x = a \<and> is_root w a" using root \<open>HookCalled x \<in> set pre\<close> by simp
      qed
      have h2: "count_list (pre @ es) (HookCalled a) \<le> 1"
        using cnt count_list_not_in[OF hk(1)[of a]] by simp
      have h3: "\<forall>x. CancelerCalled x \<in> set (pre @ es) \<longrightarrow>
          descendant w a x \<and> descendant w x t \<and> state (tasks w ! x) = Pending"
      proof (intro allI impI)
        fix x assume "CancelerCalled x \<in> set (pre @ es)"
        then have "CancelerCalled x \<in> set pre" using hk(2) by simp
        then have "x \<in> set (escalation w t)" using pre by auto
        then show "descendant w a x \<and> descendant w x t \<and> state (tasks w ! x) = Pending"
          by (rule cc)
      qed
      have h4: "r' = Returned \<longrightarrow> (\<forall>d. descendant w a d \<longrightarrow>
             state (tasks w' ! d) = Canceled \<and>
             filter (about_finally d) (pre @ es) = events_at w a Void d)" for r' :: completion
      proof (intro allI impI)
        fix d assume d: "descendant w a d"
        have "d < length (tasks w)" using descendant_lt_length[OF wf d al] .
        then have "state (tasks w' ! d) = Canceled" using st d unfolding a by simp
        then show "state (tasks w' ! d) = Canceled \<and>
             filter (about_finally d) (pre @ es) = events_at w a Void d"
          using ev[OF d] fl by simp
      qed
      show ?thesis
        apply (rule exI[of _ w'])
        apply (rule exI[of _ Returned])
        apply (rule exI[of _ "pre @ es"])
        using res l at ap h1 h2 h3 h4[of Returned] apply (intro conjI)
               apply assumption+
        done
    qed
     qed
 qed
qed

theorem finally_result_forwarded_witness:
  "well_formed finally_tree \<and> 2 < length (tasks finally_tree) \<and>
   state (tasks finally_tree ! 2) = Pending \<and> 0 = origin finally_tree 2 \<and>
   task_finally (tasks finally_tree ! 2) = None \<and>
   descendant finally_tree 0 1 \<and> 2 \<in> set (children (tasks finally_tree ! 1)) \<and>
   descendant finally_tree 2 3 \<and>
   incoming finally_tree 0 Void 3 = handed_down finally_tree 1 (incoming finally_tree 0 Void 1) \<and>
   incoming finally_tree 0 Void 3 = Thenable (External 7) \<and>
   (\<exists>w' es. task_cancel 2 finally_tree = Some (w', Returned) \<and>
      log w' = log finally_tree @ es \<and> count_list es (HookCalled 0) \<le> 1 \<and>
      HookCalled 2 \<notin> set es \<and> HookCalled 3 \<notin> set es \<and> CancelerCalled 3 \<notin> set es \<and>
      state (tasks w' ! 3) = Canceled \<and>
      filter (about_finally 3) es = [FinallyAttached 3 (External 7)])"
proof -
  have h1: "well_formed finally_tree" by code_simp
  have h2: "2 < length (tasks finally_tree)" by code_simp
  have h3: "state (tasks finally_tree ! 2) = Pending" by code_simp
  have o: "0 = origin finally_tree 2" by code_simp
  have l: "length (tasks finally_tree) = 6" by code_simp
  have f2: "task_finally (tasks finally_tree ! 2) = None" by code_simp
  have c: "2 \<in> set (children (tasks finally_tree ! 1))" by code_simp
  have r: "map_option snd (task_cancel 2 finally_tree) = Some Returned" by code_simp
  have "in_subtree finally_tree 0 1" "in_subtree finally_tree 2 3" "in_subtree finally_tree 0 3"
    by code_simp+
  then have d: "descendant finally_tree 0 1" "descendant finally_tree 2 3"
    "descendant finally_tree 0 3"
    using descendant_iff[OF h1] l by simp_all
  have i3: "incoming finally_tree 0 Void 3 = Thenable (External 7)" by code_simp
  have e3: "events_at finally_tree 0 Void 3 = [FinallyAttached 3 (External 7)]"
    unfolding events_at_def i3 by code_simp
  have between: "task_finally (tasks finally_tree ! x) = None"
    if "descendant finally_tree 2 x \<and> descendant finally_tree x 3 \<and> x \<noteq> 3" for x
  proof -
    from that have "2 \<le> x" "x \<le> 3" "x \<noteq> 3" using descendant_ge[OF h1] by blast+
    then have "x = 2" by simp
    then show ?thesis using f2 by simp
  qed
  note th = finally_result_forwarded[OF h1 h2 h3 o]
  from th have fw: "\<forall>q c d. descendant finally_tree 0 q \<and> q < length (tasks finally_tree) \<and>
        c \<in> set (children (tasks finally_tree ! q)) \<and> descendant finally_tree c d \<and>
        (\<forall>x. descendant finally_tree c x \<and> descendant finally_tree x d \<and> x \<noteq> d \<longrightarrow>
           task_finally (tasks finally_tree ! x) = None)
        \<longrightarrow> incoming finally_tree 0 Void d =
              handed_down finally_tree q (incoming finally_tree 0 Void q)"
    by (elim conjE)
  have b: "\<forall>x. descendant finally_tree 2 x \<and> descendant finally_tree x 3 \<and> x \<noteq> 3 \<longrightarrow>
      task_finally (tasks finally_tree ! x) = None" using between by blast
  have l1: "1 < length (tasks finally_tree)" by code_simp
  have i: "incoming finally_tree 0 Void 3 =
      handed_down finally_tree 1 (incoming finally_tree 0 Void 1)"
    by (rule fw[rule_format, of 1 2 3]) (intro conjI d(1) l1 c d(2) b)
  from th obtain w' r' es where tc: "task_cancel 2 finally_tree = Some (w', r')"
    and lg: "log w' = log finally_tree @ es"
    and hk: "\<forall>x. HookCalled x \<in> set es \<longrightarrow> x = 0 \<and> is_root finally_tree 0"
    and cnt: "count_list es (HookCalled 0) \<le> 1"
    and cc: "\<forall>x. CancelerCalled x \<in> set es \<longrightarrow>
          descendant finally_tree 0 x \<and> descendant finally_tree x 2 \<and>
          state (tasks finally_tree ! x) = Pending"
    and ev: "r' = Returned \<longrightarrow>
          (\<forall>d. descendant finally_tree 0 d \<longrightarrow>
             state (tasks w' ! d) = Canceled \<and>
             filter (about_finally d) es = events_at finally_tree 0 Void d)"
    by (elim conjE exE)
  have r': "r' = Returned" using r tc by simp
  have n1: "HookCalled 2 \<notin> set es" "HookCalled 3 \<notin> set es" using hk by auto
  have n2: "CancelerCalled 3 \<notin> set es"
  proof
    assume "CancelerCalled 3 \<in> set es"
    then have "descendant finally_tree 3 2" using cc by blast
    then show False using descendant_ge[OF h1] by fastforce
  qed
  have s3: "state (tasks w' ! 3) = Canceled"
    and f3: "filter (about_finally 3) es = [FinallyAttached 3 (External 7)]"
    using ev r' d(3) e3 by simp_all
  have "\<exists>w' es. task_cancel 2 finally_tree = Some (w', Returned) \<and>
      log w' = log finally_tree @ es \<and> count_list es (HookCalled 0) \<le> 1 \<and>
      HookCalled 2 \<notin> set es \<and> HookCalled 3 \<notin> set es \<and> CancelerCalled 3 \<notin> set es \<and>
      state (tasks w' ! 3) = Canceled \<and>
      filter (about_finally 3) es = [FinallyAttached 3 (External 7)]"
    using tc r' lg cnt n1 n2 s3 f3 by blast
  then show ?thesis using h1 h2 h3 o f2 d(1,2) c i i3 by blast
qed

end
